theory Spec2Isabelle
  imports Main "HOL-Library.Char_ord" "HOL-Library.List_Lexorder" "HOL-Library.Product_Lexorder"
begin

section \<open>Python values shared by the modules\<close>

text \<open>The exception classes raised by the modelled functions, as values.\<close>

datatype error = IOError | ValueError | RuntimeError | AttributeError | OSError
  | IndexError | TypeError | ReError

text \<open>\<^verbatim>\<open>str.isdigit\<close> on one character and on a whole byte string (false on the empty string).\<close>

definition isdigit_c :: "char \<Rightarrow> bool" where
  "isdigit_c c = (c \<in> set ''0123456789'')"

definition str_isdigit :: "string \<Rightarrow> bool" where
  "str_isdigit s = (s \<noteq> [] \<and> list_all isdigit_c s)"

text \<open>\<^verbatim>\<open>str(n)\<close> for an integer: the decimal digits, most significant first;
  \<open>digit_char\<close> is the character of a digit below ten and \<open>digit_val\<close> the value of a digit
  character.\<close>

definition digit_char :: "nat \<Rightarrow> char" where
  "digit_char d = ''0123456789'' ! d"

definition digit_val :: "char \<Rightarrow> nat" where
  "digit_val c = length (takeWhile (\<lambda>x. x \<noteq> c) ''0123456789'')"

fun str_nat :: "nat \<Rightarrow> string" where
  "str_nat n = (if n < 10 then [digit_char n] else str_nat (n div 10) @ [digit_char (n mod 10)])"

declare str_nat.simps [simp del]

definition str_int :: "int \<Rightarrow> string" where
  "str_int i = (if i < 0 then CHR ''-'' # str_nat (nat (- i)) else str_nat (nat i))"

text \<open>\<^verbatim>\<open>int(s)\<close> on a byte string, base 10: surrounding whitespace is dropped, one sign
  may lead, and at least one digit follows with nothing else; \<open>None\<close> stands for the
  \<^verbatim>\<open>ValueError\<close> of an invalid literal.\<close>

definition isspace_c :: "char \<Rightarrow> bool" where
  "isspace_c c = (c \<in> set [CHR '' '', CHR 0x09, CHR 0x0A, CHR 0x0B, CHR 0x0C, CHR 0x0D])"

definition strip_ws :: "string \<Rightarrow> string" where
  "strip_ws s = rev (dropWhile isspace_c (rev (dropWhile isspace_c s)))"

definition nat_of_digits :: "string \<Rightarrow> nat" where
  "nat_of_digits ds = foldl (\<lambda>a c. 10 * a + digit_val c) 0 ds"

definition digits_value :: "string \<Rightarrow> int option" where
  "digits_value ds = (if str_isdigit ds then Some (int (nat_of_digits ds)) else None)"

definition py_int :: "string \<Rightarrow> int option" where
  "py_int s =
     (case strip_ws s of
        [] \<Rightarrow> None
      | c # r \<Rightarrow>
          if c = CHR ''-'' then map_option uminus (digits_value r)
          else if c = CHR ''+'' then digits_value r
          else digits_value (c # r))"

section \<open>utils.parse\_digit\_format\_specifier\<close>

definition parse_digit_format_specifier :: "string \<Rightarrow> error + string" where
  "parse_digit_format_specifier num_string =
     (case py_int num_string of
        None \<Rightarrow> Inl ValueError
      | Some n \<Rightarrow>
          (let padding = length num_string
           in if padding > 1 then Inr (''%0'' @ str_nat padding @ ''d'') else Inr ''%d''))"

section \<open>utils.has\_digit\_format\_specifier, utils.to\_re\_pattern\<close>

text \<open>\<^verbatim>\<open>re.search(r"(%\d*d)", filename)\<close> finds a match iff at some \<open>%\<close> the digits that
  follow (possibly none) are followed by \<open>d\<close>.\<close>

definition dfs_here :: "string \<Rightarrow> bool" where
  "dfs_here r = (case dropWhile isdigit_c r of [] \<Rightarrow> False | c # _ \<Rightarrow> c = CHR ''d'')"

fun has_digit_format_specifier :: "string \<Rightarrow> bool" where
  "has_digit_format_specifier [] = False"
| "has_digit_format_specifier (c # r) =
     ((c = CHR ''%'' \<and> dfs_here r) \<or> has_digit_format_specifier r)"

text \<open>The slice \<^verbatim>\<open>s[a:b]\<close> for non-negative \<open>a\<close> and \<open>b\<close>.\<close>

definition slice :: "'a list \<Rightarrow> nat \<Rightarrow> nat \<Rightarrow> 'a list" where
  "slice s a b = take (b - a) (drop a s)"

text \<open>In \<open>to_re_pattern\<close> the index \<^verbatim>\<open>spec[-2]\<close> is \<open>spec ! (length spec - 2)\<close>, which exists
  because a string with a specifier has at least two characters, and
  \<^verbatim>\<open>spec[-offset + 1:-1]\<close> with \<open>offset = len(spec) - 1\<close> is \<^verbatim>\<open>spec[2:len(spec) - 1]\<close>.
  The two patterns start with a backslash, written \<open>CHR 0x5C\<close>.\<close>

definition to_re_pattern :: "string \<Rightarrow> bool \<Rightarrow> error + string" where
  "to_re_pattern spec strict =
     (if \<not> has_digit_format_specifier spec then Inl AttributeError
      else if spec \<noteq> ''%d'' then
        (let c = spec ! (length spec - 2);
             size0 = (if isdigit_c c then Some (int (digit_val c)) else Some 1);
             size1 = (if length spec > 4 then py_int (slice spec 2 (length spec - 1)) else size0)
         in case size1 of
              None \<Rightarrow> Inl ValueError
            | Some sz \<Rightarrow>
                if strict then Inr (CHR 0x5C # ''d{'' @ str_int sz @ ''}'')
                else Inr (CHR 0x5C # ''d{1,'' @ str_int sz @ ''}''))
      else Inr (CHR 0x5C # ''d+''))"

section \<open>utils.split\_at\_digit\<close>

datatype midsection = MidStr string | MidList "string list"

record sorted_root =
  head :: string
  mid :: "midsection option"
  tail :: "string option"

text \<open>The splitting loop: \<open>split_root\<close>, \<open>substr_index\<close> and \<open>prev_isdigit\<close> are the
  loop's variables, the last argument is \<open>root[1:]\<close> still to be read.\<close>

fun split_loop :: "string list \<Rightarrow> nat \<Rightarrow> bool \<Rightarrow> string \<Rightarrow> string list" where
  "split_loop split_root substr_index prev_isdigit [] = split_root"
| "split_loop split_root substr_index prev_isdigit (c # cs) =
     (if (\<not> isdigit_c c \<and> \<not> prev_isdigit) \<or> (isdigit_c c \<and> prev_isdigit)
      then split_loop (split_root[substr_index := split_root ! substr_index @ [c]])
             substr_index (isdigit_c c) cs
      else split_loop (split_root @ [[c]]) (substr_index + 1) (isdigit_c c) cs)"

definition split_at_digit :: "string \<Rightarrow> bool \<Rightarrow> error + sorted_root" where
  "split_at_digit root join_mid =
     (case root of
        [] \<Rightarrow> Inl IndexError
      | c # cs \<Rightarrow>
          (let split_root = split_loop [[c]] 0 (isdigit_c c) cs;
               midsection = butlast (tl split_root)
           in Inr \<lparr> head = hd split_root,
                    mid = (if length split_root < 3 then None
                           else if length midsection = 1 then Some (MidStr (hd midsection))
                           else if join_mid then Some (MidStr (concat midsection))
                           else Some (MidList midsection)),
                    tail = (if length split_root < 2 then None
                            else Some (last split_root)) \<rparr>))"

text \<open>\<^verbatim>\<open>ImageSequence._get_body\<close>: head, midsection parts and tail in one flat list.\<close>

definition get_body :: "sorted_root \<Rightarrow> string list" where
  "get_body r =
     [head r]
     @ (case mid r of None \<Rightarrow> [] | Some (MidList ms) \<Rightarrow> ms | Some (MidStr m) \<Rightarrow> [m])
     @ (case tail r of None \<Rightarrow> [] | Some t \<Rightarrow> [t])"

section \<open>The file system and \<open>os.path\<close>\<close>

text \<open>A file system maps absolute POSIX paths to nodes; the order of the entries is the order
  in which \<^verbatim>\<open>os.listdir\<close> reports them. File contents play no role in the modelled code.\<close>

datatype node = File | Dir

type_synonym filesystem = "(string \<times> node) list"

definition os_path_exists :: "filesystem \<Rightarrow> string \<Rightarrow> bool" where
  "os_path_exists fs p = (map_of fs p \<noteq> None)"

definition os_path_isfile :: "filesystem \<Rightarrow> string \<Rightarrow> bool" where
  "os_path_isfile fs p = (map_of fs p = Some File)"

definition os_path_isdir :: "filesystem \<Rightarrow> string \<Rightarrow> bool" where
  "os_path_isdir fs p = (map_of fs p = Some Dir)"

definition os_path_join :: "string \<Rightarrow> string \<Rightarrow> string" where
  "os_path_join a b =
     (if b \<noteq> [] \<and> hd b = CHR ''/'' then b
      else if a = [] \<or> last a = CHR ''/'' then a @ b
      else a @ ''/'' @ b)"

text \<open>\<^verbatim>\<open>posixpath.split\<close>: cut after the last slash; trailing slashes are stripped from the
  head unless it consists of slashes only.\<close>

definition os_path_split :: "string \<Rightarrow> string \<times> string" where
  "os_path_split p =
     (let tl_rev = takeWhile (\<lambda>c. c \<noteq> CHR ''/'') (rev p);
          hd0 = take (length p - length tl_rev) p;
          hd1 = (if hd0 \<noteq> [] \<and> \<not> list_all (\<lambda>c. c = CHR ''/'') hd0
                 then rev (dropWhile (\<lambda>c. c = CHR ''/'') (rev hd0)) else hd0)
      in (hd1, rev tl_rev))"

text \<open>\<^verbatim>\<open>os.path.splitext\<close>: the extension starts at the last dot of the last path component,
  unless only dots precede it there.\<close>

definition os_path_splitext :: "string \<Rightarrow> string \<times> string" where
  "os_path_splitext p =
     (let comp_rev = takeWhile (\<lambda>c. c \<noteq> CHR ''/'') (rev p);
          ext_rev = takeWhile (\<lambda>c. c \<noteq> CHR ''.'') comp_rev
      in if length ext_rev < length comp_rev
            \<and> \<not> list_all (\<lambda>c. c = CHR ''.'') (drop (Suc (length ext_rev)) comp_rev)
         then (take (length p - Suc (length ext_rev)) p, drop (length p - Suc (length ext_rev)) p)
         else (p, []))"

text \<open>The names \<^verbatim>\<open>os.listdir(d)\<close> reports: the entries directly below \<open>d\<close>. Listing
  something that is not a directory raises \<^verbatim>\<open>OSError\<close>.\<close>

definition child_name :: "string \<Rightarrow> string \<Rightarrow> string list" where
  "child_name d p =
     (let pre = (if d = [] \<or> last d = CHR ''/'' then d else d @ ''/'');
          n = drop (length pre) p
      in if take (length pre) p = pre \<and> n \<noteq> [] \<and> CHR ''/'' \<notin> set n then [n] else [])"

definition os_listdir :: "filesystem \<Rightarrow> string \<Rightarrow> error + string list" where
  "os_listdir fs d =
     (if os_path_isdir fs d then Inr (concat (map (\<lambda>(p, k). child_name d p) fs))
      else Inl OSError)"

text \<open>\<^verbatim>\<open>s.strip(".")\<close> and \<^verbatim>\<open>s.upper()\<close> on byte strings.\<close>

definition strip_dots :: "string \<Rightarrow> string" where
  "strip_dots s = rev (dropWhile (\<lambda>c. c = CHR ''.'') (rev (dropWhile (\<lambda>c. c = CHR ''.'') s)))"

definition upper_c :: "char \<Rightarrow> char" where
  "upper_c c = (if CHR ''a'' \<le> c \<and> c \<le> CHR ''z'' then char_of (of_char c - (32::nat)) else c)"

definition upper :: "string \<Rightarrow> string" where
  "upper s = map upper_c s"

section \<open>utils.is\_file, utils.fetch\_dir\<close>

text \<open>Only the first component of the pair \<open>is_file\<close> returns is modelled (every caller but
  the constructor reads nothing else); the second is the text of an error message. A
  restriction given as a single string is the one-element list.\<close>

definition is_file :: "filesystem \<Rightarrow> string \<Rightarrow> string list option \<Rightarrow> bool" where
  "is_file fs path restrict =
     (if \<not> os_path_exists fs path then False
      else if \<not> os_path_isfile fs path then False
      else case restrict of
             None \<Rightarrow> True
           | Some allowed_formats \<Rightarrow>
               (let (basedir, filename) = os_path_split path;
                    (root, ext) = os_path_splitext filename
                in upper (strip_dots ext) \<in> set allowed_formats))"

definition fetch_dir :: "filesystem \<Rightarrow> string \<Rightarrow> string list option \<Rightarrow> bool \<Rightarrow> string list" where
  "fetch_dir fs path restrict sort_files =
     (case os_listdir fs path of
        Inl _ \<Rightarrow> []
      | Inr names \<Rightarrow>
          (let files = filter (\<lambda>f. is_file fs (os_path_join path f) restrict) names
           in if sort_files \<and> length files > 0 then sort files else files))"

section \<open>utils.levenshtein\_distance\<close>

text \<open>The matrix \<open>d\<close> has \<open>len(t) + 1\<close> rows of \<open>len(s) + 1\<close> entries; the three loops fill the
  first row, the first column and then the remaining entries row by row.\<close>

definition lev_cell :: "string \<Rightarrow> string \<Rightarrow> nat \<Rightarrow> nat list list \<Rightarrow> nat \<Rightarrow> nat list list" where
  "lev_cell s t j d i =
     (let substitution_cost = (if s ! (i - 1) = t ! (j - 1) then 0 else 1 :: nat)
      in d[j := (d ! j)[i := min (min (d ! j ! (i - 1) + 1) (d ! (j - 1) ! i + 1))
                                  (d ! (j - 1) ! (i - 1) + substitution_cost)]])"

definition levenshtein_distance :: "string \<Rightarrow> string \<Rightarrow> nat" where
  "levenshtein_distance s t =
     (let d0 = replicate (length t + 1) (replicate (length s + 1) (0::nat));
          d1 = fold (\<lambda>i d. d[0 := (d ! 0)[i := i]]) [1..<length s + 1] d0;
          d2 = fold (\<lambda>j d. d[j := (d ! j)[0 := j]]) [1..<length t + 1] d1;
          d3 = fold (\<lambda>j d. fold (\<lambda>i d'. lev_cell s t j d' i) [1..<length s + 1] d)
                 [1..<length t + 1] d2
      in last (last d3))"

section \<open>The \<open>%\<close> operator on a pattern and one integer\<close>

text \<open>\<^verbatim>\<open>pattern % i\<close> as far as the repository uses it: literal text, the escape \<open>%%\<close> and one
  conversion \<open>%<digits>d\<close>, where a leading \<open>0\<close> among the digits is the zero-padding flag and
  the digits give the minimum width. A pattern that consumes no argument, or asks for a
  second one, raises \<^verbatim>\<open>TypeError\<close>; any other conversion is reported as
  \<^verbatim>\<open>ValueError\<close>.\<close>

definition render_d :: "bool \<Rightarrow> nat \<Rightarrow> int \<Rightarrow> string" where
  "render_d zero width i =
     (let s = str_int i; pad = width - length s
      in if zero then (if i < 0 then CHR ''-'' # replicate pad CHR ''0'' @ tl s
                       else replicate pad CHR ''0'' @ s)
         else replicate pad CHR '' '' @ s)"

definition conv_d :: "string \<Rightarrow> int \<Rightarrow> (string \<times> string) option" where
  "conv_d r i =
     (let ds = takeWhile isdigit_c r
      in case dropWhile isdigit_c r of
           [] \<Rightarrow> None
         | c # rest \<Rightarrow>
             if c = CHR ''d''
             then Some (render_d (ds \<noteq> [] \<and> hd ds = CHR ''0'') (nat_of_digits ds) i, rest)
             else None)"

fun format_tail :: "string \<Rightarrow> error + string" where
  "format_tail [] = Inr []"
| "format_tail (c # r) =
     (if c \<noteq> CHR ''%'' then map_sum id ((#) c) (format_tail r)
      else case r of
             [] \<Rightarrow> Inl ValueError
           | c2 # r2 \<Rightarrow>
               if c2 = CHR ''%'' then map_sum id ((#) c) (format_tail r2)
               else if dfs_here r then Inl TypeError else Inl ValueError)"

fun py_format :: "string \<Rightarrow> int \<Rightarrow> error + string" where
  "py_format [] i = Inl TypeError"
| "py_format (c # r) i =
     (if c \<noteq> CHR ''%'' then map_sum id ((#) c) (py_format r i)
      else case r of
             [] \<Rightarrow> Inl ValueError
           | c2 # r2 \<Rightarrow>
               if c2 = CHR ''%'' then map_sum id ((#) c) (py_format r2 i)
               else (case conv_d r i of
                       None \<Rightarrow> Inl ValueError
                     | Some (out, rest) \<Rightarrow> map_sum id ((@) out) (format_tail rest)))"

section \<open>image\_sequence.ImageSequence\<close>

text \<open>The attributes of an \<open>ImageSequence\<close> object; \<open>parts\<close> holds \<open>head\<close>, \<open>mid\<close> and \<open>tail\<close>.\<close>

record image_sequence =
  path :: string
  basedir :: string
  filename :: string
  root :: string
  ext :: string
  parts :: sorted_root
  files :: "string list"
  fcount :: nat
  messages :: "string list"
  dfs_filename :: string
  start_num :: int

text \<open>The slices \<^verbatim>\<open>s[:k]\<close> and \<^verbatim>\<open>s[k:]\<close> for an integer \<open>k\<close>; a negative \<open>k\<close> counts from the end.\<close>

definition py_take :: "int \<Rightarrow> 'a list \<Rightarrow> 'a list" where
  "py_take k s = (if k < 0 then take (nat (int (length s) + k)) s else take (nat k) s)"

definition py_drop :: "int \<Rightarrow> 'a list \<Rightarrow> 'a list" where
  "py_drop k s = (if k < 0 then drop (nat (int (length s) + k)) s else drop (nat k) s)"

subsection \<open>\_predict\_sequence\<close>

text \<open>The inner loop over \<open>self.files\<close> for one body component \<open>b\<close> that starts at index \<open>si\<close>
  of the root: \<open>count\<close> and \<open>total_dist\<close> are the loop's variables, and leaving the loop by
  \<^verbatim>\<open>break\<close> returns the distance accumulated so far.\<close>

fun total_dist_loop ::
  "filesystem \<Rightarrow> image_sequence \<Rightarrow> bool \<Rightarrow> int \<Rightarrow> nat \<Rightarrow> string \<Rightarrow> string list \<Rightarrow> int \<Rightarrow> nat \<Rightarrow> nat"
where
  "total_dist_loop fs self strict max_count si b [] count total_dist = total_dist"
| "total_dist_loop fs self strict max_count si b (f # rest) count total_dist =
     (if \<not> strict \<and> count \<ge> max_count then total_dist
      else
        (let fpath = os_path_join (basedir self) f;
             total_dist' =
               (if is_file fs fpath (Some [upper (strip_dots (ext self))]) \<and> f \<noteq> filename self
                then (let froot = fst (os_path_splitext f)
                      in total_dist + levenshtein_distance (slice froot si (si + length b)) b)
                else total_dist)
         in total_dist_loop fs self strict max_count si b rest (count + 1) total_dist'))"

text \<open>The outer loop over the body components: \<open>i\<close> is the index of the component \<open>b\<close>,
  \<open>si\<close> its start index in the root, \<open>predicted\<close> the indices found so far.\<close>

fun predict_loop ::
  "filesystem \<Rightarrow> image_sequence \<Rightarrow> bool \<Rightarrow> int \<Rightarrow> string list \<Rightarrow> nat \<Rightarrow> nat \<Rightarrow> nat list \<Rightarrow> nat list"
where
  "predict_loop fs self strict max_count [] i si predicted = predicted"
| "predict_loop fs self strict max_count (b # bs) i si predicted =
     (let ln = length b;
          total_dist = total_dist_loop fs self strict max_count si b (files self) 0 0;
          predicted' = (if total_dist > 0 \<and> str_isdigit b then predicted @ [i] else predicted)
      in predict_loop fs self strict max_count bs (i + 1) (si + ln) predicted')"

definition predict_sequence ::
  "filesystem \<Rightarrow> image_sequence \<Rightarrow> string list \<Rightarrow> bool \<Rightarrow> error + nat list" where
  "predict_sequence fs self body strict =
     (case py_int (''1'' @ concat (map (\<lambda>_. ''0'') [0..<length (str_nat (fcount self)) - 1])) of
        None \<Rightarrow> Inl ValueError
      | Some max_count0 \<Rightarrow>
          (let max_count = (if max_count0 > 10 then max_count0 else int (fcount self));
               predicted = predict_loop fs self strict max_count body 0 0 []
           in if length predicted < 1 \<or> length predicted > length body then Inl RuntimeError
              else Inr predicted))"

subsection \<open>\_parse\_filename\_pattern\<close>

text \<open>The loop over the predicted indices; the text collected in \<open>msg\<close> is only printed and
  is left out. \<open>sequence\<close> is \<open>None\<close> until the first round.\<close>

fun parse_loop ::
  "string list \<Rightarrow> nat list \<Rightarrow> string \<Rightarrow> string option \<Rightarrow> int \<Rightarrow> error + (string \<times> string option)"
where
  "parse_loop body [] parsed_root sequence offset = Inr (parsed_root, sequence)"
| "parse_loop body (i # rest) parsed_root sequence offset =
     (let sequence' = body ! i
      in case parse_digit_format_specifier sequence' of
           Inl e \<Rightarrow> Inl e
         | Inr parsed_seq \<Rightarrow>
             (let ri = int (length (concat (take i body))) - offset;
                  parsed_root' = py_take ri parsed_root @ parsed_seq
                                 @ py_drop (ri + int (length (body ! i))) parsed_root
              in parse_loop body rest parsed_root' (Some sequence')
                   (offset + (int (length sequence') - int (length parsed_seq)))))"

definition parse_filename_pattern ::
  "filesystem \<Rightarrow> image_sequence \<Rightarrow> bool \<Rightarrow> error + (string \<times> int)" where
  "parse_filename_pattern fs self strict =
     (let body = get_body (parts self)
      in case predict_sequence fs self body False of
           Inl e \<Rightarrow> Inl e
         | Inr bsi \<Rightarrow>
             (case parse_loop body bsi (root self) None 0 of
                Inl e \<Rightarrow> Inl e
              | Inr (parsed_root, sequence) \<Rightarrow>
                  if length bsi > 1 \<and> strict then Inl RuntimeError
                  else (case sequence of
                          None \<Rightarrow> Inl TypeError
                        | Some sq \<Rightarrow>
                            (case py_int sq of
                               None \<Rightarrow> Inl ValueError
                             | Some n \<Rightarrow> Inr (parsed_root @ ext self, n)))))"

subsection \<open>detect\_gaps, starts\_at\_zero, get\_start\_number\<close>

text \<open>\<^verbatim>\<open>xrange(a, b)\<close> is \<open>[a..b - 1]\<close>, and \<^verbatim>\<open>xrange(a - 1, -1, -1)\<close> is \<open>rev [0..a - 1]\<close>.\<close>

fun gaps_loop :: "image_sequence \<Rightarrow> int list \<Rightarrow> string list \<Rightarrow> error + string list" where
  "gaps_loop self [] missing_files = Inr missing_files"
| "gaps_loop self (i # rest) missing_files =
     (case py_format (dfs_filename self) i of
        Inl e \<Rightarrow> Inl e
      | Inr fname \<Rightarrow>
          gaps_loop self rest
            (if fname \<notin> set (files self) then missing_files @ [fname] else missing_files))"

definition detect_gaps :: "image_sequence \<Rightarrow> error + string list option" where
  "detect_gaps self =
     (if start_num self < 0 then Inr None
      else case gaps_loop self [start_num self..int (length (files self)) - 1] [] of
             Inl e \<Rightarrow> Inl e
           | Inr missing_files \<Rightarrow>
               Inr (if length missing_files > 0 then Some missing_files else None))"

definition starts_at_zero :: "image_sequence \<Rightarrow> bool" where
  "starts_at_zero self = (start_num self = 0)"

fun start_loop :: "filesystem \<Rightarrow> image_sequence \<Rightarrow> int list \<Rightarrow> int \<Rightarrow> error + int" where
  "start_loop fs self [] other_num = Inr other_num"
| "start_loop fs self (i # rest) other_num =
     (case py_format (dfs_filename self) i of
        Inl e \<Rightarrow> Inl e
      | Inr fname \<Rightarrow>
          start_loop fs self rest
            (if is_file fs (os_path_join (basedir self) fname) None then i else other_num))"

definition get_start_number :: "filesystem \<Rightarrow> image_sequence \<Rightarrow> error + int" where
  "get_start_number fs self =
     (case (if \<not> starts_at_zero self then start_loop fs self (rev [0..start_num self - 1]) (- 1)
            else Inr (- 1)) of
        Inl e \<Rightarrow> Inl e
      | Inr other_num \<Rightarrow> Inr (if other_num < 0 then start_num self else other_num))"

subsection \<open>The constructor\<close>

definition single_image_message :: "string \<Rightarrow> string" where
  "single_image_message fname =
     ''Unable to find image sequence files, other than '' @ [CHR 0x27] @ fname @ [CHR 0x27]
     @ '' at the specified path.''"

text \<open>\<open>__init__\<close>. The attributes \<open>dfs_filename\<close> and \<open>start_num\<close> do not exist before one of
  the two branches assigns them; the record \<open>self\<close> carries an empty pattern and zero until
  then, and no method reads them before.\<close>

definition ImageSequence :: "filesystem \<Rightarrow> string \<Rightarrow> string list option \<Rightarrow> error + image_sequence" where
  "ImageSequence fs p supp_formats =
     (if \<not> is_file fs p supp_formats then Inl IOError
      else
        (let (bd, fname) = os_path_split p
         in if CHR ''%'' \<in> set fname then Inl ValueError
            else
              (let (rt, ex) = os_path_splitext fname
               in case split_at_digit rt False of
                    Inl e \<Rightarrow> Inl e
                  | Inr sr \<Rightarrow>
                      (let fl = fetch_dir fs bd (Some [upper (strip_dots ex)]) True;
                           self = \<lparr> path = p, basedir = bd, filename = fname, root = rt, ext = ex,
                                    parts = sr, files = fl, fcount = length fl, messages = [],
                                    dfs_filename = [], start_num = 0 \<rparr>
                       in if fcount self < 2
                          then Inr (self\<lparr> dfs_filename := fname, start_num := - 1,
                                         messages := messages self @ [single_image_message fname] \<rparr>)
                          else (case parse_filename_pattern fs self True of
                                  Inl e \<Rightarrow> Inl e
                                | Inr (pat, n) \<Rightarrow>
                                    (let self1 = self\<lparr> dfs_filename := pat, start_num := n \<rparr>
                                     in case get_start_number fs self1 of
                                          Inl e \<Rightarrow> Inl e
                                        | Inr st \<Rightarrow> Inr (self1\<lparr> start_num := st \<rparr>)))))))"

section \<open>Predicates used to state the properties\<close>

text \<open>A segment is homogeneous when it is a non-empty run of digits or a non-empty run of
  non-digits; a segment list alternates when neighbours differ in class.\<close>

definition homog :: "string \<Rightarrow> bool" where
  "homog s = (s \<noteq> [] \<and> (list_all isdigit_c s \<or> list_all (\<lambda>c. \<not> isdigit_c c) s))"

definition alternates :: "string list \<Rightarrow> bool" where
  "alternates xs = (\<forall>i. Suc i < length xs \<longrightarrow> str_isdigit (xs ! i) \<noteq> str_isdigit (xs ! Suc i))"

text \<open>The invariant of the splitting loop.\<close>

definition split_inv :: "string list \<Rightarrow> nat \<Rightarrow> bool \<Rightarrow> bool" where
  "split_inv acc idx prev = (acc \<noteq> [] \<and> Suc idx = length acc \<and> list_all homog acc \<and> alternates acc
     \<and> prev = str_isdigit (last acc))"


text \<open>The literals \<^verbatim>\<open>int\<close> accepts, spelled out: optional whitespace, an optional sign,
  one or more digits, optional whitespace.\<close>

definition int_literal :: "string \<Rightarrow> bool" where
  "int_literal s = (\<exists>ws1 sign ds ws2. s = ws1 @ sign @ ds @ ws2
      \<and> list_all isspace_c ws1 \<and> list_all isspace_c ws2
      \<and> (sign = [] \<or> sign = ''+'' \<or> sign = ''-'') \<and> str_isdigit ds)"

text \<open>The canonical pattern with prefix \<open>pre\<close>, a counter of width \<open>W\<close> (zero for the unpadded
  \<open>%d\<close>) and suffix \<open>post\<close>, and the filename it renders for \<open>i\<close>.\<close>

definition dfs_of_width :: "nat \<Rightarrow> string" where
  "dfs_of_width W = (if W = 0 then ''%d'' else ''%0'' @ str_nat W @ ''d'')"

definition canonical :: "string \<Rightarrow> nat \<Rightarrow> string \<Rightarrow> string" where
  "canonical pre W post = pre @ dfs_of_width W @ post"

definition rendered :: "string \<Rightarrow> nat \<Rightarrow> string \<Rightarrow> int \<Rightarrow> string" where
  "rendered pre W post i = pre @ render_d (W \<noteq> 0) W i @ post"

text \<open>A directory holding the frames 5 and 7 of a sequence, and the descriptor built from
  frame 5.\<close>

definition gap_dir :: filesystem where
  "gap_dir = [(''/d'', Dir), (''/d/frame_5.png'', File), (''/d/frame_7.png'', File)]"

definition gap_seq :: image_sequence where
  "gap_seq = \<lparr> path = ''/d/frame_5.png'', basedir = ''/d'', filename = ''frame_5.png'',
                root = ''frame_5'', ext = ''.png'',
                parts = \<lparr> head = ''frame_'', mid = None, tail = Some ''5'' \<rparr>,
                files = [''frame_5.png'', ''frame_7.png''], fcount = 2, messages = [],
                dfs_filename = ''frame_%d.png'', start_num = 5 \<rparr>"

text \<open>A directory with the frames 0, 1 and 2 and the descriptor as the constructor has it
  after parsing the pattern from frame 1; a directory with one image.\<close>

definition img_dir :: filesystem where
  "img_dir = [(''/d'', Dir), (''/d/img_000.jpg'', File), (''/d/img_001.jpg'', File),
              (''/d/img_002.jpg'', File)]"

definition img_seq :: image_sequence where
  "img_seq = \<lparr> path = ''/d/img_001.jpg'', basedir = ''/d'', filename = ''img_001.jpg'',
                root = ''img_001'', ext = ''.jpg'',
                parts = \<lparr> head = ''img_'', mid = None, tail = Some ''001'' \<rparr>,
                files = [''img_000.jpg'', ''img_001.jpg'', ''img_002.jpg''], fcount = 3,
                messages = [], dfs_filename = ''img_%03d.jpg'', start_num = 1 \<rparr>"

definition single_dir :: filesystem where
  "single_dir = [(''/d'', Dir), (''/d/single.png'', File), (''/d/notes.txt'', File)]"

text \<open>The accumulated dissimilarity of a body component \<open>b\<close> at index \<open>si\<close> against a list of
  sampled files: the sum of the Levenshtein distances between \<open>b\<close> and the substring at the
  same position of the root of every sampled file that is an admissible file of the
  directory other than the sample. A component is a sequence candidate when this sum is
  positive and the component consists of digits.\<close>

definition dissimilarity ::
  "filesystem \<Rightarrow> image_sequence \<Rightarrow> string list \<Rightarrow> nat \<Rightarrow> string \<Rightarrow> nat" where
  "dissimilarity fs self sampled si b =
     sum_list (map (\<lambda>f. levenshtein_distance (slice (fst (os_path_splitext f)) si (si + length b)) b)
       (filter (\<lambda>f. is_file fs (os_path_join (basedir self) f) (Some [upper (strip_dots (ext self))])
                     \<and> f \<noteq> filename self) sampled))"

definition sequence_candidates ::
  "filesystem \<Rightarrow> image_sequence \<Rightarrow> string list \<Rightarrow> string list \<Rightarrow> nat list" where
  "sequence_candidates fs self sampled body =
     filter (\<lambda>k. 0 < dissimilarity fs self sampled (length (concat (take k body))) (body ! k)
                 \<and> str_isdigit (body ! k)) [0..<length body]"

text \<open>The number of files sampled without a full scan: the file count rounded down to a
  power of ten, or the count itself when that power is at most ten.\<close>

definition sample_size :: "nat \<Rightarrow> int" where
  "sample_size n =
     (if (10::int) ^ (length (str_nat n) - 1) \<le> 10 then int n else 10 ^ (length (str_nat n) - 1))"

text \<open>A directory whose two files differ in two digit runs, and the descriptor the constructor
  holds for the first of them when it calls \<open>_parse_filename_pattern\<close>.\<close>

definition two_dir :: filesystem where
  "two_dir = [(''/d'', Dir), (''/d/a1_01.png'', File), (''/d/a2_02.png'', File)]"

definition two_seq :: image_sequence where
  "two_seq = \<lparr> path = ''/d/a1_01.png'', basedir = ''/d'', filename = ''a1_01.png'',
                root = ''a1_01'', ext = ''.png'',
                parts = \<lparr> head = ''a'', mid = Some (MidList [''1'', ''_'']), tail = Some ''01'' \<rparr>,
                files = [''a1_01.png'', ''a2_02.png''], fcount = 2, messages = [],
                dfs_filename = [], start_num = 0 \<rparr>"

section \<open>utils.extract\_digit\_format\_specifiers and string helpers\<close>

text \<open>\<^verbatim>\<open>re.findall(r"(%\d*d)", s)\<close>: the matches from left to right, the search resuming after
  each match; \<open>skip\<close> counts the characters of the current match still to be passed.\<close>

fun findall_dfs :: "nat \<Rightarrow> string \<Rightarrow> string list" where
  "findall_dfs skip [] = []"
| "findall_dfs skip (c # r) =
     (if skip > 0 then findall_dfs (skip - 1) r
      else if c = CHR ''%'' \<and> dfs_here r
      then (c # takeWhile isdigit_c r @ ''d'') # findall_dfs (length (takeWhile isdigit_c r) + 1) r
      else findall_dfs 0 r)"

text \<open>\<^verbatim>\<open>s.find(sub)\<close>, \<^verbatim>\<open>sub in s\<close> and \<^verbatim>\<open>s.replace(old, new)\<close>.\<close>

fun str_find :: "string \<Rightarrow> string \<Rightarrow> int" where
  "str_find [] sub = (if sub = [] then 0 else - 1)"
| "str_find (c # r) sub =
     (if take (length sub) (c # r) = sub then 0
      else (let k = str_find r sub in if k < 0 then - 1 else k + 1))"

definition str_contains :: "string \<Rightarrow> string \<Rightarrow> bool" where
  "str_contains s sub = (0 \<le> str_find s sub)"

fun replace_from :: "nat \<Rightarrow> string \<Rightarrow> string \<Rightarrow> string \<Rightarrow> string" where
  "replace_from skip [] old new = []"
| "replace_from skip (c # r) old new =
     (if skip > 0 then replace_from (skip - 1) r old new
      else if take (length old) (c # r) = old then new @ replace_from (length old - 1) r old new
      else c # replace_from 0 r old new)"

definition str_replace :: "string \<Rightarrow> string \<Rightarrow> string \<Rightarrow> string" where
  "str_replace s old new =
     (if old = [] then concat (map (\<lambda>c. new @ [c]) s) @ new else replace_from 0 s old new)"

text \<open>The result of \<open>extract_digit_format_specifiers\<close>: \<open>(None, None)\<close>, one index with one
  specifier, or the two lists.\<close>

datatype dfs_result = NoDfs | OneDfs int string | ManyDfs "int list" "string list"

definition extract_digit_format_specifiers :: "string \<Rightarrow> dfs_result" where
  "extract_digit_format_specifiers fname =
     (if \<not> has_digit_format_specifier fname then NoDfs
      else (let specifiers = findall_dfs 0 fname;
                indices = map (str_find fname) specifiers
            in if length specifiers > 1 then ManyDfs indices specifiers
               else OneDfs (hd indices) (hd specifiers)))"

section \<open>image\_sequence: get\_regex\_filename, get\_sequence\_files\<close>

definition get_regex_filename :: "image_sequence \<Rightarrow> error + string" where
  "get_regex_filename self =
     (case extract_digit_format_specifiers (dfs_filename self) of
        NoDfs \<Rightarrow> Inr (dfs_filename self)
      | ManyDfs _ _ \<Rightarrow> if start_num self < 0 then Inr (dfs_filename self) else Inl ValueError
      | OneDfs _ dfs \<Rightarrow>
          if start_num self < 0 then Inr (dfs_filename self)
          else (case to_re_pattern dfs True of
                  Inl e \<Rightarrow> Inl e
                | Inr pat \<Rightarrow>
                    (let group_pattern = ''('' @ pat @ '')'';
                         re_filename = ''^'' @ str_replace (dfs_filename self) dfs group_pattern @ ''$''
                     in Inr (if str_contains re_filename ''%%''
                             then str_replace re_filename ''%%'' ''%'' else re_filename))))"

text \<open>\<open>get_sequence_files\<close> and the renaming below call \<^verbatim>\<open>re.match\<close>; the regular expression
  engine is a parameter \<open>rematch\<close>, which answers with an exception, with \<open>None\<close> or with the
  list of the captured groups 1, 2, ... of the match.\<close>

type_synonym regex_engine = "string \<Rightarrow> string \<Rightarrow> error + string list option"

fun sequence_loop ::
  "regex_engine \<Rightarrow> filesystem \<Rightarrow> image_sequence \<Rightarrow> bool \<Rightarrow> string \<Rightarrow> string list
     \<Rightarrow> string list \<Rightarrow> int list \<Rightarrow> error + (string list \<times> int list)" where
  "sequence_loop rematch fs self sort_files re_fname [] fl seq_nums = Inr (fl, seq_nums)"
| "sequence_loop rematch fs self sort_files re_fname (f # rest) fl seq_nums =
     (if \<not> os_path_isfile fs (os_path_join (basedir self) f)
      then sequence_loop rematch fs self sort_files re_fname rest fl seq_nums
      else case rematch re_fname f of
             Inl e \<Rightarrow> Inl e
           | Inr None \<Rightarrow> sequence_loop rematch fs self sort_files re_fname rest fl seq_nums
           | Inr (Some groups) \<Rightarrow>
               if sort_files
               then (case groups of
                       [] \<Rightarrow> Inl IndexError
                     | g # _ \<Rightarrow>
                         (case py_int g of
                            None \<Rightarrow> Inl ValueError
                          | Some num \<Rightarrow>
                              sequence_loop rematch fs self sort_files re_fname rest
                                (fl @ [f]) (seq_nums @ [num])))
               else sequence_loop rematch fs self sort_files re_fname rest (fl @ [f]) seq_nums)"

definition get_sequence_files ::
  "regex_engine \<Rightarrow> filesystem \<Rightarrow> image_sequence \<Rightarrow> bool \<Rightarrow> error + string list" where
  "get_sequence_files rematch fs self sort_files =
     (case get_regex_filename self of
        Inl e \<Rightarrow> Inl e
      | Inr re_fname \<Rightarrow>
          (case os_listdir fs (basedir self) of
             Inl e \<Rightarrow> Inl e
           | Inr names \<Rightarrow>
               (case sequence_loop rematch fs self sort_files re_fname names [] [] of
                  Inl e \<Rightarrow> Inl e
                | Inr (fl, seq_nums) \<Rightarrow>
                    Inr (if sort_files \<and> length fl > 0 then map snd (sort (zip seq_nums fl))
                         else fl))))"

section \<open>A fragment of \<open>re.match\<close>\<close>

text \<open>The patterns \<open>get_regex_filename\<close> builds from filenames are modelled as far as they
  consist of literal characters, the dot, \<open>\d\<close>, escaped punctuation, the anchors \<open>^\<close> and
  \<open>$\<close>, groups that are not nested, and the greedy quantifiers \<open>*\<close>, \<open>+\<close>, \<open>?\<close>, \<open>{m}\<close>,
  \<open>{m,n}\<close> on a single character. Every other pattern (character classes, alternation,
  quantified or nested groups, lazy quantifiers, unbalanced parentheses) is answered with
  \<open>ReError\<close>, whether or not \<open>re\<close> would compile it.\<close>

datatype atom = Lit char | AnyChar | Digit

datatype token = TAtom atom | TQuant nat "nat option" | TOpen | TClose | TBol | TEol | TBad

datatype item = Rep atom nat "nat option" | Open | Close | Bol | Eol | Bad

datatype tok_state = Normal | Escaped | Brace1 string | Brace2 string string

definition isalnum_c :: "char \<Rightarrow> bool" where
  "isalnum_c c = (isdigit_c c \<or> (CHR ''a'' \<le> c \<and> c \<le> CHR ''z'') \<or> (CHR ''A'' \<le> c \<and> c \<le> CHR ''Z''))"

definition tok_normal :: "char \<Rightarrow> token list \<times> tok_state" where
  "tok_normal c =
     (if c = CHR 0x5C then ([], Escaped)
      else if c = CHR ''{'' then ([], Brace1 [])
      else if c = CHR ''^'' then ([TBol], Normal)
      else if c = CHR ''$'' then ([TEol], Normal)
      else if c = CHR ''('' then ([TOpen], Normal)
      else if c = CHR '')'' then ([TClose], Normal)
      else if c = CHR ''*'' then ([TQuant 0 None], Normal)
      else if c = CHR ''+'' then ([TQuant 1 None], Normal)
      else if c = CHR ''?'' then ([TQuant 0 (Some 1)], Normal)
      else if c = CHR ''.'' then ([TAtom AnyChar], Normal)
      else if c \<in> set ''[]|}'' then ([TBad], Normal)
      else ([TAtom (Lit c)], Normal))"

definition tok_step :: "tok_state \<Rightarrow> char \<Rightarrow> token list \<times> tok_state" where
  "tok_step st c =
     (case st of
        Normal \<Rightarrow> tok_normal c
      | Escaped \<Rightarrow>
          if c = CHR ''d'' then ([TAtom Digit], Normal)
          else if isalnum_c c then ([TBad], Normal)
          else ([TAtom (Lit c)], Normal)
      | Brace1 ds \<Rightarrow>
          if isdigit_c c then ([], Brace1 (ds @ [c]))
          else if c = CHR ''}'' \<and> ds \<noteq> []
          then ([TQuant (nat_of_digits ds) (Some (nat_of_digits ds))], Normal)
          else if c = CHR '','' then ([], Brace2 ds [])
          else ([TBad], Normal)
      | Brace2 ds es \<Rightarrow>
          if isdigit_c c then ([], Brace2 ds (es @ [c]))
          else if c = CHR ''}'' \<and> (ds \<noteq> [] \<or> es \<noteq> [])
          then ([TQuant (nat_of_digits ds) (if es = [] then None else Some (nat_of_digits es))],
                Normal)
          else ([TBad], Normal))"

fun tokens :: "tok_state \<Rightarrow> string \<Rightarrow> token list" where
  "tokens st [] = (if st = Normal then [] else [TBad])"
| "tokens st (c # r) = fst (tok_step st c) @ tokens (snd (tok_step st c)) r"

text \<open>Quantifiers are attached to the character before them; a quantifier with nothing to
  repeat, after a group or after another quantifier is outside the fragment.\<close>

fun attach :: "token list \<Rightarrow> item list" where
  "attach [] = []"
| "attach (TAtom a # TQuant lo hi # TQuant lo' hi' # ts) = [Bad]"
| "attach (TAtom a # TQuant lo hi # ts) = Rep a lo hi # attach ts"
| "attach (TAtom a # ts) = Rep a 1 (Some 1) # attach ts"
| "attach (TQuant lo hi # ts) = [Bad]"
| "attach (TOpen # ts) = Open # attach ts"
| "attach (TClose # ts) = Close # attach ts"
| "attach (TBol # ts) = Bol # attach ts"
| "attach (TEol # ts) = Eol # attach ts"
| "attach (TBad # ts) = [Bad]"

text \<open>Groups are balanced and not nested.\<close>

fun groups_ok :: "bool \<Rightarrow> item list \<Rightarrow> bool" where
  "groups_ok inside [] = (\<not> inside)"
| "groups_ok inside (Open # its) = (\<not> inside \<and> groups_ok True its)"
| "groups_ok inside (Close # its) = (inside \<and> groups_ok False its)"
| "groups_ok inside (it # its) = groups_ok inside its"

definition atom_ok :: "atom \<Rightarrow> char \<Rightarrow> bool" where
  "atom_ok a c = (case a of Lit x \<Rightarrow> c = x | AnyChar \<Rightarrow> c \<noteq> CHR 0x0A | Digit \<Rightarrow> isdigit_c c)"

definition first_some :: "'a option list \<Rightarrow> 'a option" where
  "first_some xs = (case filter (\<lambda>x. x \<noteq> None) xs of [] \<Rightarrow> None | x # _ \<Rightarrow> x)"

text \<open>The backtracking matcher: \<open>s\<close> is the rest of the subject, \<open>at_start\<close> tells whether
  nothing has been consumed, \<open>opened\<close> is the rest of the subject where the open group
  began, \<open>groups\<close> are the groups captured so far. A quantified character tries the
  longest run first.\<close>

fun match_items ::
  "item list \<Rightarrow> string \<Rightarrow> bool \<Rightarrow> string option \<Rightarrow> string list \<Rightarrow> string list option" where
  "match_items [] s at_start opened groups = Some groups"
| "match_items (Bol # its) s at_start opened groups =
     (if at_start then match_items its s at_start opened groups else None)"
| "match_items (Eol # its) s at_start opened groups =
     (if s = [] \<or> s = [CHR 0x0A] then match_items its s at_start opened groups else None)"
| "match_items (Open # its) s at_start opened groups =
     match_items its s at_start (Some s) groups"
| "match_items (Close # its) s at_start opened groups =
     (case opened of
        None \<Rightarrow> None
      | Some s0 \<Rightarrow> match_items its s at_start None (groups @ [take (length s0 - length s) s0]))"
| "match_items (Rep a lo hi # its) s at_start opened groups =
     (let run = length (takeWhile (atom_ok a) s);
          n = (case hi of None \<Rightarrow> run | Some h \<Rightarrow> min run h)
      in first_some (map (\<lambda>k. match_items its (drop k s) (at_start \<and> k = 0) opened groups)
                       (rev [lo..<Suc n])))"
| "match_items (Bad # its) s at_start opened groups = None"

definition re_match :: regex_engine where
  "re_match pattern subject =
     (let its = attach (tokens Normal pattern)
      in if Bad \<in> set its \<or> \<not> groups_ok False its then Inl ReError
         else Inr (match_items its subject True None []))"

text \<open>The pattern fragment \<open>to_re_pattern\<close> returns for a counter of width \<open>W\<close>, and the regular
  expression of a canonical pattern.\<close>

definition re_of_width :: "nat \<Rightarrow> string" where
  "re_of_width W = (if W = 0 then CHR 0x5C # ''d+'' else CHR 0x5C # ''d{'' @ str_nat W @ ''}'')"

definition canonical_regex :: "string \<Rightarrow> nat \<Rightarrow> string \<Rightarrow> string" where
  "canonical_regex pre W post = ''^'' @ pre @ ''('' @ re_of_width W @ '')'' @ post @ ''$''"





section \<open>Properties of \<open>split_at_digit\<close>\<close>

lemma split_loop_concat:
  "Suc idx = length acc \<Longrightarrow> concat (split_loop acc idx prev cs) = concat acc @ cs"
proof (induction cs arbitrary: acc idx prev)
  case Nil
  then show ?case by simp
next
  case (Cons c cs)
  from Cons.prems obtain ys y where acc: "acc = ys @ [y]" and idx: "idx = length ys"
    by (cases acc rule: rev_cases) auto
  show ?case using Cons.IH[of idx "acc[idx := acc ! idx @ [c]]"] Cons.IH[of "Suc idx" "acc @ [[c]]"] Cons.prems
    by (simp add: acc idx)
qed

lemma split_inv_same:
  assumes "split_inv acc idx prev" "isdigit_c c = prev"
  shows "split_inv (acc[idx := acc ! idx @ [c]]) idx (isdigit_c c)"
proof -
  from assms(1) obtain ys y where acc: "acc = ys @ [y]" and idx: "idx = length ys"
    unfolding split_inv_def by (cases acc rule: rev_cases) auto
  have y: "homog y" "prev = str_isdigit y" using assms(1) by (auto simp: split_inv_def acc)
  have cls: "str_isdigit (y @ [c]) = str_isdigit y" "homog (y @ [c])"
    using y assms(2) by (auto simp: str_isdigit_def homog_def)
  have alt: "alternates (ys @ [y])" using assms(1) by (simp add: split_inv_def acc)
  have "alternates (ys @ [y @ [c]])"
    unfolding alternates_def
  proof (intro allI impI)
    fix i assume i: "Suc i < length (ys @ [y @ [c]])"
    then have "str_isdigit ((ys @ [y]) ! i) \<noteq> str_isdigit ((ys @ [y]) ! Suc i)"
      using alt by (simp add: alternates_def)
    then show "str_isdigit ((ys @ [y @ [c]]) ! i) \<noteq> str_isdigit ((ys @ [y @ [c]]) ! Suc i)"
      using i cls(1) by (cases "Suc i < length ys") (simp_all add: nth_append)
  qed
  then show ?thesis using assms cls y by (simp add: split_inv_def acc idx)
qed

lemma split_inv_new:
  assumes "split_inv acc idx prev" "isdigit_c c \<noteq> prev"
  shows "split_inv (acc @ [[c]]) (Suc idx) (isdigit_c c)"
proof -
  have cls: "str_isdigit [c] = isdigit_c c" "homog [c]"
    by (auto simp: str_isdigit_def homog_def)
  have ne: "acc \<noteq> []" and alt: "alternates acc" and prev: "prev = str_isdigit (last acc)"
    using assms(1) by (simp_all add: split_inv_def)
  have "alternates (acc @ [[c]])"
    unfolding alternates_def
  proof (intro allI impI)
    fix i assume i: "Suc i < length (acc @ [[c]])"
    show "str_isdigit ((acc @ [[c]]) ! i) \<noteq> str_isdigit ((acc @ [[c]]) ! Suc i)"
    proof (cases "Suc i < length acc")
      case True
      then show ?thesis using alt by (simp add: alternates_def nth_append)
    next
      case False
      with i have e: "Suc i = length acc" by simp
      then have "i = length acc - 1" by simp
      then have "acc ! i = last acc" using ne by (simp add: last_conv_nth)
      then show ?thesis using e prev assms(2) cls(1) by (simp add: nth_append)
    qed
  qed
  then show ?thesis using assms cls by (simp add: split_inv_def)
qed

lemma split_loop_inv:
  "split_inv acc idx prev \<Longrightarrow> list_all homog (split_loop acc idx prev cs) \<and> alternates (split_loop acc idx prev cs)"
proof (induction cs arbitrary: acc idx prev)
  case Nil
  then show ?case by (simp add: split_inv_def)
next
  case (Cons c cs)
  show ?case
  proof (cases "isdigit_c c = prev")
    case True
    then show ?thesis using Cons.IH[OF split_inv_same[OF Cons.prems True]] by auto
  next
    case False
    then show ?thesis using Cons.IH[OF split_inv_new[OF Cons.prems False]] by auto
  qed
qed

lemma split_loop_nonempty: "acc \<noteq> [] \<Longrightarrow> split_loop acc idx prev cs \<noteq> []"
  by (induction cs arbitrary: acc idx prev) auto

lemma body_of_split_root:
  assumes "xs \<noteq> []"
  shows "[hd xs]
     @ (case (if length xs < 3 then None
              else if length (butlast (tl xs)) = 1 then Some (MidStr (hd (butlast (tl xs))))
              else Some (MidList (butlast (tl xs)))) of
          None \<Rightarrow> [] | Some (MidList ms) \<Rightarrow> ms | Some (MidStr m) \<Rightarrow> [m])
     @ (case (if length xs < 2 then None else Some (last xs)) of None \<Rightarrow> [] | Some t \<Rightarrow> [t]) = xs"
proof -
  obtain x ys where xs: "xs = x # ys" using assms by (cases xs) auto
  show ?thesis
  proof (cases ys rule: rev_cases)
    case Nil
    then show ?thesis by (simp add: xs)
  next
    case (snoc zs z)
    then show ?thesis by (cases zs) (auto simp: xs)
  qed
qed

lemma get_body_split_at_digit:
  "split_at_digit (c # cs) False = Inr r \<Longrightarrow> get_body r = split_loop [[c]] 0 (isdigit_c c) cs"
  using body_of_split_root[OF split_loop_nonempty[of "[[c]]" 0 "isdigit_c c" cs]]
  by (auto simp: split_at_digit_def get_body_def Let_def)


text \<open>
  C7. For every non-empty filename root, the segments of \<open>split_at_digit\<close> (head, midsection
  parts, tail, as \<open>_get_body\<close> lists them) concatenate to the root; every segment is a
  non-empty run of one class and adjacent segments are of different classes; a root of
  length one yields a single segment.
\<close>

theorem split_at_digit_lossless_minimal:
  assumes "rt \<noteq> []"
  shows "\<exists>r. split_at_digit rt False = Inr r
             \<and> concat (get_body r) = rt
             \<and> list_all homog (get_body r)
             \<and> alternates (get_body r)
             \<and> (length rt = 1 \<longrightarrow> length (get_body r) = 1)"
proof -
  obtain c cs where rt: "rt = c # cs" using assms by (cases rt) auto
  obtain r where r: "split_at_digit (c # cs) False = Inr r"
    by (simp add: split_at_digit_def Let_def)
  have body: "get_body r = split_loop [[c]] 0 (isdigit_c c) cs"
    by (rule get_body_split_at_digit[OF r])
  have inv0: "split_inv [[c]] 0 (isdigit_c c)"
    by (simp add: split_inv_def homog_def alternates_def str_isdigit_def)
  have "concat (get_body r) = c # cs"
    using split_loop_concat[of 0 "[[c]]" "isdigit_c c" cs] by (simp add: body)
  moreover have "list_all homog (get_body r) \<and> alternates (get_body r)"
    using split_loop_inv[OF inv0, of cs] by (simp add: body)
  moreover have "length (c # cs) = 1 \<longrightarrow> length (get_body r) = 1"
    by (simp add: body)
  ultimately show ?thesis using r unfolding rt by blast
qed

theorem split_at_digit_lossless_minimal_witness:
  "''img_0075'' \<noteq> [] \<and>
   (\<exists>r. split_at_digit ''img_0075'' False = Inr r
        \<and> concat (get_body r) = ''img_0075''
        \<and> list_all homog (get_body r)
        \<and> alternates (get_body r)
        \<and> (length ''img_0075'' = 1 \<longrightarrow> length (get_body r) = 1))"
  using split_at_digit_lossless_minimal[of "''img_0075''"] by simp

section \<open>Digits, \<open>str\<close> and \<open>int\<close>\<close>

lemma digit_cases: "d < 10 \<Longrightarrow> d = 0 \<or> d = 1 \<or> d = 2 \<or> d = 3 \<or> d = 4 \<or> d = 5 \<or> d = 6 \<or> d = 7 \<or> d = 8 \<or> d = (9::nat)"
  by arith

lemma isdigit_digit_char: "d < 10 \<Longrightarrow> isdigit_c (digit_char d)"
  by (drule digit_cases) (auto simp: isdigit_c_def digit_char_def)

lemma digit_val_digit_char: "d < 10 \<Longrightarrow> digit_val (digit_char d) = d"
  by (drule digit_cases) (auto simp: digit_val_def digit_char_def)

lemma isdigit_not_space: "isdigit_c c \<Longrightarrow> \<not> isspace_c c"
  by (auto simp: isdigit_c_def isspace_c_def)

lemma isdigit_not_sign: "isdigit_c c \<Longrightarrow> c \<noteq> CHR ''-'' \<and> c \<noteq> CHR ''+'' \<and> c \<noteq> CHR ''%'' \<and> c \<noteq> CHR ''d''"
  by (auto simp: isdigit_c_def)

lemma str_nat_digits: "list_all isdigit_c (str_nat n)"
  by (induction n rule: str_nat.induct) (subst str_nat.simps, simp add: isdigit_digit_char)

lemma str_nat_nonempty: "str_nat n \<noteq> []"
  by (subst str_nat.simps) simp

lemma str_isdigit_str_nat: "str_isdigit (str_nat n)"
  by (simp add: str_isdigit_def str_nat_digits str_nat_nonempty)

lemma nat_of_digits_snoc: "nat_of_digits (ds @ [c]) = 10 * nat_of_digits ds + digit_val c"
  by (simp add: nat_of_digits_def)

lemma nat_of_digits_str_nat: "nat_of_digits (str_nat n) = n"
proof (induction n rule: str_nat.induct)
  case (1 n)
  show ?case
  proof (cases "n < 10")
    case True
    then show ?thesis by (subst str_nat.simps) (simp add: nat_of_digits_def digit_val_digit_char)
  next
    case False
    then show ?thesis using 1
      by (subst str_nat.simps) (simp add: nat_of_digits_snoc digit_val_digit_char)
  qed
qed

lemma length_str_nat_small: "n < 10 \<Longrightarrow> str_nat n = [digit_char n]"
  by (subst str_nat.simps) simp

lemma length_str_nat_big: "10 \<le> n \<Longrightarrow> 2 \<le> length (str_nat n)"
  using str_nat_nonempty[of "n div 10"]
  by (subst str_nat.simps) (cases "str_nat (n div 10)", auto)

lemma strip_ws_core:
  assumes "list_all isspace_c ws1" "list_all isspace_c ws2" "b \<noteq> []"
    "\<not> isspace_c (hd b)" "\<not> isspace_c (last b)"
  shows "strip_ws (ws1 @ b @ ws2) = b"
proof -
  have 1: "dropWhile isspace_c (ws1 @ b @ ws2) = b @ ws2"
    using assms(1,3,4) by (cases b) (auto simp: dropWhile_append2 list_all_iff)
  have "dropWhile isspace_c (rev ws2 @ rev b) = dropWhile isspace_c (rev b)"
    using assms(2) by (intro dropWhile_append2) (simp add: list_all_iff)
  moreover have "dropWhile isspace_c (rev b) = rev b"
    using assms(3,5) by (cases b rule: rev_cases) auto
  ultimately have 2: "dropWhile isspace_c (rev ws2 @ rev b) = rev b" by simp
  show ?thesis by (simp add: strip_ws_def 1 2)
qed

lemma strip_ws_digits: "str_isdigit ds \<Longrightarrow> strip_ws ds = ds"
proof -
  assume a: "str_isdigit ds"
  then have "\<not> isspace_c (hd ds)" "\<not> isspace_c (last ds)"
    by (auto simp: str_isdigit_def list_all_iff intro!: isdigit_not_space)
  then show ?thesis using strip_ws_core[of "[]" "[]" ds] a by (simp add: str_isdigit_def)
qed

lemma py_int_digits: "str_isdigit ds \<Longrightarrow> py_int ds = Some (int (nat_of_digits ds))"
proof -
  assume a: "str_isdigit ds"
  then obtain c r where ds: "ds = c # r" by (cases ds) (auto simp: str_isdigit_def)
  have "isdigit_c c" using a by (simp add: ds str_isdigit_def)
  then have "c \<noteq> CHR ''-''" "c \<noteq> CHR ''+''" using isdigit_not_sign by auto
  then show ?thesis using a strip_ws_digits[OF a] by (simp add: py_int_def ds digits_value_def)
qed

lemma py_int_str_nat: "py_int (str_nat n) = Some (int n)"
  by (simp add: py_int_digits str_isdigit_str_nat nat_of_digits_str_nat)

lemma strip_ws_decomp: "\<exists>ws1 ws2. s = ws1 @ strip_ws s @ ws2 \<and> list_all isspace_c ws1 \<and> list_all isspace_c ws2"
proof -
  let ?u = "dropWhile isspace_c s"
  have 1: "s = takeWhile isspace_c s @ ?u" by simp
  have "rev ?u = rev (strip_ws s @ rev (takeWhile isspace_c (rev ?u)))"
    by (simp add: strip_ws_def)
  then have 2: "?u = strip_ws s @ rev (takeWhile isspace_c (rev ?u))"
    by (simp only: rev_is_rev_conv)
  have 3: "list_all isspace_c (takeWhile isspace_c s)"
    "list_all isspace_c (rev (takeWhile isspace_c (rev ?u)))"
    by (auto simp: list_all_iff dest: set_takeWhileD)
  have "s = takeWhile isspace_c s @ strip_ws s @ rev (takeWhile isspace_c (rev ?u))"
    using 1 2 by metis
  then show ?thesis using 3 by blast
qed

lemma py_int_Some_iff: "(\<exists>n. py_int s = Some n) \<longleftrightarrow> int_literal s"
proof
  assume "\<exists>n. py_int s = Some n"
  then obtain n where n: "py_int s = Some n" ..
  obtain ws1 ws2 where d: "s = ws1 @ strip_ws s @ ws2" "list_all isspace_c ws1" "list_all isspace_c ws2"
    using strip_ws_decomp by blast
  have "\<exists>sign ds. strip_ws s = sign @ ds \<and> (sign = [] \<or> sign = ''+'' \<or> sign = ''-'') \<and> str_isdigit ds"
  proof (cases "strip_ws s")
    case Nil
    then show ?thesis using n by (simp add: py_int_def)
  next
    case (Cons c r)
    consider "c = CHR ''-''" | "c \<noteq> CHR ''-''" "c = CHR ''+''" | "c \<noteq> CHR ''-''" "c \<noteq> CHR ''+''" by blast
    then show ?thesis
    proof cases
      case 1
      then have "str_isdigit r" using n Cons by (auto simp: py_int_def digits_value_def split: if_splits)
      then show ?thesis using Cons 1 by (intro exI[of _ "''-''"] exI[of _ r]) simp
    next
      case 2
      then have "str_isdigit r" using n Cons by (auto simp: py_int_def digits_value_def split: if_splits)
      then show ?thesis using Cons 2 by (intro exI[of _ "''+''"] exI[of _ r]) simp
    next
      case 3
      then have "str_isdigit (c # r)" using n Cons by (auto simp: py_int_def digits_value_def split: if_splits)
      then show ?thesis using Cons by (intro exI[of _ "[]"] exI[of _ "c # r"]) simp
    qed
  qed
  then obtain sign ds where sd: "strip_ws s = sign @ ds" "sign = [] \<or> sign = ''+'' \<or> sign = ''-''" "str_isdigit ds"
    by blast
  have "s = ws1 @ sign @ ds @ ws2" using d(1) sd(1) by simp
  then show "int_literal s" unfolding int_literal_def using d(2,3) sd(2,3) by blast
next
  assume "int_literal s"
  then obtain ws1 sign ds ws2 where s: "s = ws1 @ sign @ ds @ ws2"
    and ws: "list_all isspace_c ws1" "list_all isspace_c ws2"
    and sign: "sign = [] \<or> sign = ''+'' \<or> sign = ''-''" and ds: "str_isdigit ds"
    unfolding int_literal_def by blast
  have dsne: "ds \<noteq> []" and lastd: "isdigit_c (last ds)" and hdd: "isdigit_c (hd ds)"
    using ds by (auto simp: str_isdigit_def list_all_iff)
  have nsp: "\<not> isspace_c (hd (sign @ ds))" "\<not> isspace_c (last (sign @ ds))"
    using sign dsne isdigit_not_space[OF lastd] isdigit_not_space[OF hdd]
    by (auto simp: isspace_c_def)
  have st: "strip_ws s = sign @ ds"
    using strip_ws_core[OF ws _ nsp] dsne by (simp add: s)
  obtain c r where cr: "ds = c # r" using dsne by (cases ds) auto
  have cns: "c \<noteq> CHR ''-''" "c \<noteq> CHR ''+''" using hdd isdigit_not_sign by (auto simp: cr)
  from sign show "\<exists>n. py_int s = Some n"
  proof (elim disjE)
    assume "sign = []"
    then show ?thesis using st ds cns by (simp add: py_int_def cr digits_value_def)
  next
    assume "sign = ''+''"
    then show ?thesis using st ds by (simp add: py_int_def digits_value_def)
  next
    assume "sign = ''-''"
    then show ?thesis using st ds by (simp add: py_int_def digits_value_def)
  qed
qed

lemma dropWhile_digits_then:
  "list_all isdigit_c ds \<Longrightarrow> \<not> isdigit_c c \<Longrightarrow> dropWhile isdigit_c (ds @ c # r) = c # r"
  by (simp add: dropWhile_append2 list_all_iff)

lemma takeWhile_digits_then:
  "list_all isdigit_c ds \<Longrightarrow> \<not> isdigit_c c \<Longrightarrow> takeWhile isdigit_c (ds @ c # r) = ds"
  by (simp add: takeWhile_append2 list_all_iff)

lemma not_isdigit_d: "\<not> isdigit_c CHR ''d''"
  by (simp add: isdigit_c_def)

lemma isdigit_zero: "isdigit_c CHR ''0''"
  by (simp add: isdigit_c_def)

lemma str_int_nat: "str_int (int n) = str_nat n"
  by (simp add: str_int_def)

section \<open>Properties of \<open>parse_digit_format_specifier\<close>\<close>

lemma parse_digit_format_specifier_digits:
  "str_isdigit s \<Longrightarrow> parse_digit_format_specifier s
     = Inr (if length s > 1 then ''%0'' @ str_nat (length s) @ ''d'' else ''%d'')"
  by (simp add: parse_digit_format_specifier_def py_int_digits)

lemma str_isdigit_int_literal: "str_isdigit s \<Longrightarrow> int_literal s"
  unfolding int_literal_def
  by (intro exI[of _ "[]"] exI[of _ s]) simp

lemma not_int_literal_Nil: "\<not> int_literal []"
  by (simp add: int_literal_def str_isdigit_def)

text \<open>
  C5, as the code has it. \<open>parse_digit_format_specifier\<close> hands its argument to \<open>int\<close>: it
  fails with \<open>ValueError\<close> exactly when the argument is not an integer literal (optional
  whitespace, optional sign, digits, optional whitespace), so in particular on the empty
  string, and on every literal, so in particular on every non-empty string of digits, it
  returns the specifier of width \<open>len(s)\<close> when \<open>len(s) > 1\<close> and the unpadded \<open>%d\<close> otherwise.
\<close>

theorem parse_digit_format_specifier_int_literal:
  "(int_literal s \<longrightarrow> parse_digit_format_specifier s
        = Inr (if length s > 1 then ''%0'' @ str_nat (length s) @ ''d'' else ''%d''))
   \<and> (\<not> int_literal s \<longrightarrow> parse_digit_format_specifier s = Inl ValueError)
   \<and> (str_isdigit s \<longrightarrow> int_literal s)
   \<and> \<not> int_literal []"
proof -
  have "int_literal s \<Longrightarrow> \<exists>n. py_int s = Some n" using py_int_Some_iff by blast
  then have a: "int_literal s \<longrightarrow> parse_digit_format_specifier s
        = Inr (if length s > 1 then ''%0'' @ str_nat (length s) @ ''d'' else ''%d'')"
    by (auto simp: parse_digit_format_specifier_def)
  have "\<not> int_literal s \<Longrightarrow> py_int s = None" using py_int_Some_iff[of s] by auto
  then have b: "\<not> int_literal s \<longrightarrow> parse_digit_format_specifier s = Inl ValueError"
    by (auto simp: parse_digit_format_specifier_def)
  show ?thesis using a b str_isdigit_int_literal not_int_literal_Nil by blast
qed

theorem parse_digit_format_specifier_int_literal_witness:
  "int_literal ''077'' \<and> parse_digit_format_specifier ''077'' = Inr ''%03d''
   \<and> \<not> int_literal ''7x'' \<and> parse_digit_format_specifier ''7x'' = Inl ValueError"
proof -
  have d: "str_isdigit ''077''" by (simp add: str_isdigit_def isdigit_c_def)
  have n: "py_int ''7x'' = None"
    by (simp add: py_int_def strip_ws_def isspace_c_def digits_value_def str_isdigit_def isdigit_c_def)
  then have "\<not> int_literal ''7x''" using py_int_Some_iff[of "''7x''"] by simp
  then show ?thesis
    using d parse_digit_format_specifier_int_literal[of "''077''"]
      parse_digit_format_specifier_int_literal[of "''7x''"]
    by (simp add: str_nat.simps digit_char_def)
qed

text \<open>The claim as written fails at \<open>"-1"\<close>: the string contains a character that is not a
  digit, and the function returns the specifier of width two.\<close>

theorem parse_digit_format_specifier_accepts_sign:
  "\<not> list_all isdigit_c ''-1'' \<and> parse_digit_format_specifier ''-1'' = Inr ''%02d''"
  by (simp add: parse_digit_format_specifier_def py_int_def strip_ws_def isspace_c_def
      digits_value_def str_isdigit_def isdigit_c_def str_nat.simps digit_char_def)

section \<open>Properties of \<open>to_re_pattern\<close>\<close>

lemma dfs_here_digits_d: "list_all isdigit_c ds \<Longrightarrow> dfs_here (ds @ CHR ''d'' # r)"
  by (simp add: dfs_here_def dropWhile_digits_then not_isdigit_d)

lemma to_re_pattern_unpadded: "to_re_pattern ''%d'' strict = Inr (CHR 0x5C # ''d+'')"
  by (simp add: to_re_pattern_def dfs_here_def isdigit_c_def)

lemma to_re_pattern_padded:
  assumes "1 \<le> W"
  shows "to_re_pattern (''%0'' @ str_nat W @ ''d'') strict
     = Inr (if strict then CHR 0x5C # ''d{'' @ str_nat W @ ''}''
            else CHR 0x5C # ''d{1,'' @ str_nat W @ ''}'')"
proof -
  let ?spec = "''%0'' @ str_nat W @ ''d''"
  have "dfs_here ((CHR ''0'' # str_nat W) @ CHR ''d'' # [])"
    by (rule dfs_here_digits_d) (simp add: isdigit_zero str_nat_digits)
  then have has: "has_digit_format_specifier ?spec" by simp
  have ne: "?spec \<noteq> ''%d''" by simp
  show ?thesis
  proof (cases "W < 10")
    case True
    then have sn: "str_nat W = [digit_char W]" by (rule length_str_nat_small)
    show ?thesis using has True
      by (simp add: to_re_pattern_def sn isdigit_digit_char digit_val_digit_char str_int_nat
          del: has_digit_format_specifier.simps)
  next
    case False
    then have len: "2 \<le> length (str_nat W)" by (simp add: length_str_nat_big)
    have sl: "slice ?spec 2 (length ?spec - 1) = str_nat W"
      by (simp add: slice_def)
    have gt: "length ?spec > 4" using len by simp
    show ?thesis using has ne gt
      by (simp only: to_re_pattern_def sl py_int_str_nat Let_def str_int_nat)
         (simp add: str_int_nat del: has_digit_format_specifier.simps)
  qed
qed

text \<open>
  C6. On the well-formed specifiers \<open>to_re_pattern\<close> returns what the claim says (the two
  lemmas above). The claim also says that a malformed specifier is rejected, and so does
  the docstring of the function (\<open>AttributeError\<close> unless the argument is \<open>%d\<close> or
  \<open>%0<n>d\<close>); but the guard only searches for a specifier somewhere inside the argument,
  so \<open>"x%d"\<close> passes it and is answered as if it had width one.
\<close>

theorem to_re_pattern_accepts_malformed:
  "to_re_pattern ''x%d'' True = Inr (CHR 0x5C # ''d{1}'')"
  by (simp add: to_re_pattern_def dfs_here_def isdigit_c_def str_int_def str_nat.simps
      digit_char_def)

section \<open>Rendering a canonical pattern\<close>

lemma map_sum_cons_app:
  "map_sum id ((#) c) (map_sum id ((@) pre) x) = map_sum id ((@) (c # pre)) x"
  by (cases x) simp_all

lemma py_format_literal_prefix:
  "CHR ''%'' \<notin> set pre \<Longrightarrow> py_format (pre @ s) i = map_sum id ((@) pre) (py_format s i)"
proof (induction pre)
  case Nil
  show ?case by (cases "py_format s i") simp_all
next
  case (Cons c pre)
  then show ?case by (cases "py_format s i") auto
qed

lemma format_tail_literal: "CHR ''%'' \<notin> set post \<Longrightarrow> format_tail post = Inr post"
  by (induction post) auto

lemma nat_of_digits_zero_Cons: "nat_of_digits (CHR ''0'' # ds) = nat_of_digits ds"
  by (simp add: nat_of_digits_def digit_val_def)

lemma conv_d_unpadded: "conv_d (CHR ''d'' # post) i = Some (render_d False 0 i, post)"
  by (simp add: conv_d_def isdigit_c_def nat_of_digits_def)

lemma conv_d_padded:
  "conv_d (CHR ''0'' # str_nat W @ CHR ''d'' # post) i = Some (render_d True W i, post)"
proof -
  have d: "list_all isdigit_c (CHR ''0'' # str_nat W)" by (simp add: isdigit_zero str_nat_digits)
  have t: "takeWhile isdigit_c ((CHR ''0'' # str_nat W) @ CHR ''d'' # post) = CHR ''0'' # str_nat W"
    by (rule takeWhile_digits_then[OF d not_isdigit_d])
  have r: "dropWhile isdigit_c ((CHR ''0'' # str_nat W) @ CHR ''d'' # post) = CHR ''d'' # post"
    by (rule dropWhile_digits_then[OF d not_isdigit_d])
  show ?thesis using t r
    by (simp add: conv_d_def nat_of_digits_zero_Cons nat_of_digits_str_nat)
qed

lemma py_format_canonical:
  assumes "CHR ''%'' \<notin> set pre" "CHR ''%'' \<notin> set post"
  shows "py_format (canonical pre W post) i = Inr (rendered pre W post i)"
proof (cases "W = 0")
  case True
  have "py_format (''%d'' @ post) i = Inr (render_d False 0 i @ post)"
    using conv_d_unpadded[of post i] by (simp add: format_tail_literal[OF assms(2)])
  then show ?thesis using True
    by (simp add: canonical_def dfs_of_width_def rendered_def py_format_literal_prefix[OF assms(1)])
next
  case False
  have "py_format (''%0'' @ str_nat W @ ''d'' @ post) i = Inr (render_d True W i @ post)"
    using conv_d_padded[of W post i] by (simp add: format_tail_literal[OF assms(2)])
  then show ?thesis using False
    by (simp add: canonical_def dfs_of_width_def rendered_def py_format_literal_prefix[OF assms(1)])
qed

section \<open>Properties of \<open>get_start_number\<close>\<close>

lemma start_loop_descending:
  assumes "\<And>i. 0 \<le> i \<Longrightarrow> i < int n \<Longrightarrow> py_format (dfs_filename self) i = Inr (r i)"
  shows "start_loop fs self (rev [0..int n - 1]) other
     = Inr (if \<exists>i. 0 \<le> i \<and> i < int n \<and> is_file fs (os_path_join (basedir self) (r i)) None
            then int (LEAST k. is_file fs (os_path_join (basedir self) (r (int k))) None)
            else other)"
  using assms
proof (induction n arbitrary: other)
  case 0
  have "\<not> (\<exists>i. 0 \<le> i \<and> i < int 0 \<and> is_file fs (os_path_join (basedir self) (r i)) None)"
    by auto
  then show ?case by (simp only: if_False int_ops, simp)
next
  case (Suc n)
  let ?E = "\<lambda>i. is_file fs (os_path_join (basedir self) (r i)) None"
  have up: "[0..int (Suc n) - 1] = [0..int n - 1] @ [int n]"
    using upto_rec2[of 0 "int n"] by simp
  have fmt: "py_format (dfs_filename self) (int n) = Inr (r (int n))"
    using Suc.prems[of "int n"] by simp
  have IH: "\<And>other. start_loop fs self (rev [0..int n - 1]) other
     = Inr (if \<exists>i. 0 \<le> i \<and> i < int n \<and> ?E i then int (LEAST k. ?E (int k)) else other)"
    using Suc.IH Suc.prems by simp
  have step: "start_loop fs self (rev [0..int (Suc n) - 1]) other
     = Inr (if \<exists>i. 0 \<le> i \<and> i < int n \<and> ?E i then int (LEAST k. ?E (int k))
            else if ?E (int n) then int n else other)"
    unfolding up by (simp only: rev_append rev.simps append.simps start_loop.simps fmt sum.case IH)
  have split: "(\<exists>i. 0 \<le> i \<and> i < int (Suc n) \<and> ?E i)
     \<longleftrightarrow> (\<exists>i. 0 \<le> i \<and> i < int n \<and> ?E i) \<or> ?E (int n)"
  proof
    assume "\<exists>i. 0 \<le> i \<and> i < int (Suc n) \<and> ?E i"
    then obtain i where i: "0 \<le> i" "i < int (Suc n)" "?E i" by blast
    then have "i < int n \<or> i = int n" by auto
    then show "(\<exists>i. 0 \<le> i \<and> i < int n \<and> ?E i) \<or> ?E (int n)" using i by blast
  next
    assume "(\<exists>i. 0 \<le> i \<and> i < int n \<and> ?E i) \<or> ?E (int n)"
    then show "\<exists>i. 0 \<le> i \<and> i < int (Suc n) \<and> ?E i"
    proof
      assume "\<exists>i. 0 \<le> i \<and> i < int n \<and> ?E i"
      then obtain i where "0 \<le> i" "i < int n" "?E i" by blast
      then show ?thesis by (intro exI[of _ i]) simp
    next
      assume "?E (int n)"
      then show ?thesis by (intro exI[of _ "int n"]) simp
    qed
  qed
  show ?case
  proof (cases "\<exists>i. 0 \<le> i \<and> i < int n \<and> ?E i")
    case True
    then show ?thesis unfolding step split by (simp only: if_True simp_thms)
  next
    case False
    show ?thesis
    proof (cases "?E (int n)")
      case True
      have least: "(LEAST k. ?E (int k)) = n"
      proof (rule Least_equality)
        show "?E (int n)" by (rule True)
      next
        fix y assume y: "?E (int y)"
        show "n \<le> y"
        proof (rule ccontr)
          assume "\<not> n \<le> y"
          then have "0 \<le> int y \<and> int y < int n \<and> ?E (int y)" using y by simp
          then show False using False by blast
        qed
      qed
      show ?thesis unfolding step split using True False by (simp only: if_True if_False simp_thms least)
    next
      case F2: False
      show ?thesis unfolding step split using False F2 by (simp only: if_False simp_thms)
    qed
  qed
qed

lemma gap_seq_constructed: "ImageSequence gap_dir ''/d/frame_5.png'' (Some [''PNG'']) = Inr gap_seq"
  by code_simp

lemma gap_seq_detect: "detect_gaps gap_seq = Inr None"
  by code_simp

lemma gap_seq_render: "py_format (dfs_filename gap_seq) 6 = Inr ''frame_6.png''"
  by code_simp

section \<open>Properties of \<open>detect_gaps\<close>\<close>

lemma gaps_loop_rendered:
  assumes "\<And>i. i \<in> set js \<Longrightarrow> py_format (dfs_filename self) i = Inr (r i)"
  shows "gaps_loop self js acc = Inr (acc @ filter (\<lambda>f. f \<notin> set (files self)) (map r js))"
  using assms by (induction js arbitrary: acc) simp_all

text \<open>What \<open>detect_gaps\<close> computes on a canonical pattern: the names rendered for
  \<open>start_num, ..., len(files) - 1\<close> that are not among the files.\<close>

lemma detect_gaps_range:
  assumes "dfs_filename self = canonical pre W post" "CHR ''%'' \<notin> set pre" "CHR ''%'' \<notin> set post"
    "0 \<le> start_num self"
  shows "detect_gaps self =
     Inr (let missing = filter (\<lambda>f. f \<notin> set (files self))
                          (map (rendered pre W post) [start_num self..int (length (files self)) - 1])
          in if missing = [] then None else Some missing)"
proof -
  have "gaps_loop self [start_num self..int (length (files self)) - 1] []
      = Inr ([] @ filter (\<lambda>f. f \<notin> set (files self))
                   (map (rendered pre W post) [start_num self..int (length (files self)) - 1]))"
    by (rule gaps_loop_rendered) (simp add: assms(1) py_format_canonical[OF assms(2,3)])
  then show ?thesis using assms(4) by (simp add: detect_gaps_def Let_def filter_map)
qed

text \<open>
  C1. The claim lets \<open>detect_gaps\<close> scan \<open>start_number, ..., start_number + count - 1\<close>, and the
  docstring promises the missing filenames of the sequence. The loop is
  \<^verbatim>\<open>xrange(self.start_num, len(self.files))\<close>, which ends at \<open>count - 1\<close>: for the frames 5
  and 7 the constructor resolves the start number 5, the range from 5 to 1 is empty and the
  missing \<open>frame_6.png\<close> is not reported.
\<close>

theorem detect_gaps_misses_gap:
  "ImageSequence gap_dir ''/d/frame_5.png'' (Some [''PNG'']) = Inr gap_seq
   \<and> start_num gap_seq = 5 \<and> length (files gap_seq) = 2
   \<and> py_format (dfs_filename gap_seq) 6 = Inr ''frame_6.png''
   \<and> ''frame_6.png'' \<notin> set (files gap_seq)
   \<and> detect_gaps gap_seq = Inr None"
  using gap_seq_constructed gap_seq_detect gap_seq_render by (simp add: gap_seq_def)

section \<open>The resolved start number\<close>

text \<open>
  C3. Let the pattern of a sequence descriptor be canonical and \<open>start_num\<close> hold the number of
  the sample. Then \<open>get_start_number\<close> returns the smallest \<open>i\<close> with
  \<open>0 \<le> i < start_num\<close> whose rendered filename is a file of the base directory, and
  \<open>start_num\<close> itself when there is no such \<open>i\<close>.
\<close>

theorem get_start_number_smallest:
  assumes "dfs_filename self = canonical pre W post"
    and "CHR ''%'' \<notin> set pre" and "CHR ''%'' \<notin> set post"
    and "0 \<le> start_num self"
  shows "get_start_number fs self =
     Inr (if \<exists>i. 0 \<le> i \<and> i < start_num self
               \<and> is_file fs (os_path_join (basedir self) (rendered pre W post i)) None
          then int (LEAST k. is_file fs (os_path_join (basedir self) (rendered pre W post (int k))) None)
          else start_num self)"
proof -
  let ?E = "\<lambda>i. is_file fs (os_path_join (basedir self) (rendered pre W post i)) None"
  obtain n where n: "start_num self = int n" using assms(4) by (metis nonneg_int_cases)
  have loop: "start_loop fs self (rev [0..int n - 1]) (- 1)
      = Inr (if \<exists>i. 0 \<le> i \<and> i < int n \<and> ?E i then int (LEAST k. ?E (int k)) else - 1)"
    by (rule start_loop_descending) (simp add: assms(1) py_format_canonical[OF assms(2,3)])
  show ?thesis
  proof (cases "n = 0")
    case True
    have ne: "\<not> (\<exists>i. 0 \<le> i \<and> i < start_num self \<and> ?E i)" using True n by auto
    have "get_start_number fs self = Inr (start_num self)"
      using True by (simp add: get_start_number_def starts_at_zero_def n)
    then show ?thesis using ne by (simp only: if_False)
  next
    case False
    show ?thesis
    proof (cases "\<exists>i. 0 \<le> i \<and> i < int n \<and> ?E i")
      case ex: True
      have "start_loop fs self (rev [0..int n - 1]) (- 1) = Inr (int (LEAST k. ?E (int k)))"
        unfolding loop using ex by (simp only: if_True)
      then have "get_start_number fs self = Inr (int (LEAST k. ?E (int k)))"
        using False by (simp add: get_start_number_def starts_at_zero_def n)
      then show ?thesis unfolding n using ex by (simp only: if_True)
    next
      case nex: False
      have "start_loop fs self (rev [0..int n - 1]) (- 1) = Inr (- 1)"
        unfolding loop using nex by (simp only: if_False)
      then have "get_start_number fs self = Inr (int n)"
        using False by (simp add: get_start_number_def starts_at_zero_def n)
      then show ?thesis unfolding n using nex by (simp only: if_False)
    qed
  qed
qed

theorem get_start_number_smallest_witness:
  "dfs_filename img_seq = canonical ''img_'' 3 ''.jpg''
   \<and> CHR ''%'' \<notin> set ''img_'' \<and> CHR ''%'' \<notin> set ''.jpg'' \<and> 0 \<le> start_num img_seq
   \<and> get_start_number img_dir img_seq = Inr 0
   \<and> is_file img_dir (os_path_join (basedir img_seq) (rendered ''img_'' 3 ''.jpg'' 0)) None"
proof -
  have c: "dfs_filename img_seq = canonical ''img_'' 3 ''.jpg''"
    by (simp add: img_seq_def canonical_def dfs_of_width_def str_nat.simps digit_char_def)
  have e: "is_file img_dir (os_path_join (basedir img_seq) (rendered ''img_'' 3 ''.jpg'' 0)) None"
    by code_simp
  have l: "(LEAST k. is_file img_dir (os_path_join (basedir img_seq) (rendered ''img_'' 3 ''.jpg'' (int k))) None) = 0"
    using e by (intro Least_equality) simp_all
  have ex: "\<exists>i. 0 \<le> i \<and> i < start_num img_seq
      \<and> is_file img_dir (os_path_join (basedir img_seq) (rendered ''img_'' 3 ''.jpg'' i)) None"
    using e by (intro exI[of _ 0]) (simp add: img_seq_def)
  have "get_start_number img_dir img_seq = Inr 0"
    using get_start_number_smallest[of img_seq "''img_''" 3 "''.jpg''" img_dir] c ex l
    by (simp add: img_seq_def)
  then show ?thesis using c e by (simp add: img_seq_def)
qed

section \<open>The single image\<close>

lemma splitext_root_nonempty: "f \<noteq> [] \<Longrightarrow> fst (os_path_splitext f) \<noteq> []"
proof -
  assume f: "f \<noteq> []"
  let ?comp = "takeWhile (\<lambda>c. c \<noteq> CHR ''/'') (rev f)"
  let ?e = "takeWhile (\<lambda>c. c \<noteq> CHR ''.'') ?comp"
  show ?thesis
  proof (cases "length ?e < length ?comp \<and> \<not> list_all (\<lambda>c. c = CHR ''.'') (drop (Suc (length ?e)) ?comp)")
    case True
    then have "drop (Suc (length ?e)) ?comp \<noteq> []" by auto
    then have "Suc (length ?e) < length ?comp" by simp
    moreover have "length ?comp \<le> length f" using length_takeWhile_le[of _ "rev f"] by simp
    ultimately have "Suc (length ?e) < length f" by simp
    then show ?thesis using True f by (simp add: os_path_splitext_def Let_def)
  next
    case False
    then show ?thesis using f by (auto simp add: os_path_splitext_def Let_def)
  qed
qed

lemma no_percent_no_dfs: "CHR ''%'' \<notin> set s \<Longrightarrow> \<not> has_digit_format_specifier s"
  by (induction s) auto

text \<open>
  C4. When the sample is an admissible file without \<open>%\<close> in its name and fewer than two files
  of its extension are in the directory, the constructor succeeds without any inference:
  \<open>start_num\<close> is \<open>-1\<close>, the pattern is the literal filename, which holds no digit format
  specifier, one diagnostic message is recorded, and \<open>detect_gaps\<close> answers \<open>None\<close>.
\<close>

theorem single_image_descriptor:
  assumes "is_file fs p supp_formats"
    and "os_path_split p = (bd, fname)" and "fname \<noteq> []" and "CHR ''%'' \<notin> set fname"
    and "length (fetch_dir fs bd (Some [upper (strip_dots (snd (os_path_splitext fname)))]) True) < 2"
  shows "\<exists>self. ImageSequence fs p supp_formats = Inr self
            \<and> start_num self = - 1
            \<and> dfs_filename self = fname \<and> filename self = fname
            \<and> \<not> has_digit_format_specifier (dfs_filename self)
            \<and> messages self = [single_image_message fname]
            \<and> detect_gaps self = Inr None"
proof -
  obtain rt ex where se: "os_path_splitext fname = (rt, ex)" by (cases "os_path_splitext fname")
  have "rt \<noteq> []" using splitext_root_nonempty[OF assms(3)] se by simp
  then obtain c cs where rt: "rt = c # cs" by (cases rt) auto
  obtain sr where sr: "split_at_digit rt False = Inr sr"
    by (simp add: rt split_at_digit_def Let_def)
  show ?thesis using assms se sr no_percent_no_dfs[OF assms(4)]
    by (simp add: ImageSequence_def Let_def detect_gaps_def)
qed

theorem single_image_descriptor_witness:
  "is_file single_dir ''/d/single.png'' (Some [''JPG'', ''PNG''])
   \<and> os_path_split ''/d/single.png'' = (''/d'', ''single.png'')
   \<and> (\<exists>self. ImageSequence single_dir ''/d/single.png'' (Some [''JPG'', ''PNG'']) = Inr self
            \<and> start_num self = - 1
            \<and> dfs_filename self = ''single.png'' \<and> filename self = ''single.png''
            \<and> \<not> has_digit_format_specifier (dfs_filename self)
            \<and> messages self = [single_image_message ''single.png'']
            \<and> detect_gaps self = Inr None)"
proof -
  have a: "is_file single_dir ''/d/single.png'' (Some [''JPG'', ''PNG''])" by code_simp
  have b: "os_path_split ''/d/single.png'' = (''/d'', ''single.png'')" by code_simp
  have c: "length (fetch_dir single_dir ''/d''
             (Some [upper (strip_dots (snd (os_path_splitext ''single.png'')))]) True) < 2"
    by code_simp
  show ?thesis
    using single_image_descriptor[OF a b _ _ c] a b by simp
qed

section \<open>Sampling in \<open>_predict_sequence\<close>\<close>

lemma total_dist_loop_strict:
  "total_dist_loop fs self True mc si b fl count td = td + dissimilarity fs self fl si b"
  by (induction fl arbitrary: count td) (simp_all add: dissimilarity_def Let_def)

lemma total_dist_loop_sampled:
  "total_dist_loop fs self False mc si b fl count td
     = td + dissimilarity fs self (take (nat (mc - count)) fl) si b"
proof (induction fl arbitrary: count td)
  case Nil
  then show ?case by (simp add: dissimilarity_def)
next
  case (Cons f rest)
  show ?case
  proof (cases "count \<ge> mc")
    case True
    then show ?thesis by (simp add: dissimilarity_def)
  next
    case False
    then obtain m where m: "nat (mc - count) = Suc m" by (cases "nat (mc - count)") auto
    then have m': "nat (mc - (count + 1)) = m" by linarith
    show ?thesis using False
      by (simp add: Cons.IH m m' Let_def) (simp add: dissimilarity_def)
  qed
qed

lemma dissimilarity_files_update [simp]:
  "dissimilarity fs (self\<lparr>files := X\<rparr>) sampled si b = dissimilarity fs self sampled si b"
  by (simp add: dissimilarity_def)

lemma predict_loop_sampled:
  "predict_loop fs self False mc body i si pred
     = predict_loop fs (self\<lparr>files := take (nat mc) (files self)\<rparr>) True mc' body i si pred"
  by (induction body arbitrary: i si pred)
     (simp_all add: Let_def total_dist_loop_strict total_dist_loop_sampled)

lemma predict_loop_full:
  "predict_loop fs self False (int (length (files self))) body i si pred
     = predict_loop fs self True mc' body i si pred"
  by (induction body arbitrary: i si pred)
     (simp_all add: Let_def total_dist_loop_strict total_dist_loop_sampled)

lemma zeros_replicate: "concat (map (\<lambda>_. ''0'') [0..<k]) = replicate k CHR ''0''"
  by (induction k) (simp_all add: replicate_append_same)

lemma nat_of_digits_zeros: "nat_of_digits (ds @ replicate k CHR ''0'') = nat_of_digits ds * 10 ^ k"
proof (induction k)
  case 0
  show ?case by simp
next
  case (Suc k)
  have "nat_of_digits (ds @ replicate (Suc k) CHR ''0'')
      = nat_of_digits ((ds @ replicate k CHR ''0'') @ [CHR ''0''])"
    by (simp add: replicate_append_same)
  also have "\<dots> = 10 * nat_of_digits (ds @ replicate k CHR ''0'')"
    by (simp only: nat_of_digits_snoc) (simp add: digit_val_def)
  finally show ?case using Suc by simp
qed

lemma max_count_power:
  "py_int (''1'' @ concat (map (\<lambda>_. ''0'') [0..<k])) = Some (10 ^ k)"
proof -
  have d: "str_isdigit (''1'' @ replicate k CHR ''0'')"
    by (simp add: str_isdigit_def isdigit_c_def list_all_iff)
  have "nat_of_digits ''1'' = 1" by (simp add: nat_of_digits_def digit_val_def)
  then have "nat_of_digits (''1'' @ replicate k CHR ''0'') = 10 ^ k"
    using nat_of_digits_zeros[of "''1''" k] by simp
  then show ?thesis using py_int_digits[OF d] by (simp add: map_replicate_const)
qed

lemma predict_sequence_unfold:
  "predict_sequence fs self body strict =
     (let predicted = predict_loop fs self strict
            (if (10::int) ^ (length (str_nat (fcount self)) - 1) > 10
             then 10 ^ (length (str_nat (fcount self)) - 1) else int (fcount self)) body 0 0 []
      in if length predicted < 1 \<or> length predicted > length body then Inl RuntimeError
         else Inr predicted)"
  unfolding predict_sequence_def max_count_power by (simp add: Let_def)

lemma sample_size_eq:
  "sample_size n = (if (10::int) ^ (length (str_nat n) - 1) > 10
                    then 10 ^ (length (str_nat n) - 1) else int n)"
  by (simp add: sample_size_def)

section \<open>Candidates and failures of the inference\<close>

lemma predict_loop_candidates:
  "predict_loop fs self strict mc body i si pred
     = pred @ map (\<lambda>k. i + k)
         (filter (\<lambda>k. 0 < total_dist_loop fs self strict mc (si + length (concat (take k body)))
                           (body ! k) (files self) 0 0
                       \<and> str_isdigit (body ! k)) [0..<length body])"
proof (induction body arbitrary: i si pred)
  case Nil
  show ?case by simp
next
  case (Cons b bs)
  have up: "[0..<length (b # bs)] = 0 # map Suc [0..<length bs]"
    by (simp add: upt_conv_Cons map_Suc_upt del: upt_Suc)
  show ?case
    unfolding up
    by (simp add: Cons.IH Let_def filter_map comp_def add.assoc del: upt_Suc)
qed

lemma parse_loop_digits:
  "(\<And>i. i \<in> set bsi \<Longrightarrow> str_isdigit (body ! i)) \<Longrightarrow>
   \<exists>pr. parse_loop body bsi proot sq off
          = Inr (pr, if bsi = [] then sq else Some (body ! last bsi))"
proof (induction bsi arbitrary: proot sq off)
  case Nil
  show ?case by simp
next
  case (Cons i rest)
  have d: "str_isdigit (body ! i)" using Cons.prems by simp
  obtain spec where spec: "parse_digit_format_specifier (body ! i) = Inr spec"
    using parse_digit_format_specifier_digits[OF d] by blast
  have r: "\<And>j. j \<in> set rest \<Longrightarrow> str_isdigit (body ! j)" using Cons.prems by simp
  let ?pr = "py_take (int (length (concat (take i body))) - off) proot @ spec
             @ py_drop (int (length (concat (take i body))) - off + int (length (body ! i))) proot"
  let ?off = "off + (int (length (body ! i)) - int (length spec))"
  obtain pr where pr: "parse_loop body rest ?pr (Some (body ! i)) ?off
      = Inr (pr, if rest = [] then Some (body ! i) else Some (body ! last rest))"
    using Cons.IH[OF r, of ?pr "Some (body ! i)" ?off] by blast
  have "parse_loop body (i # rest) proot sq off = parse_loop body rest ?pr (Some (body ! i)) ?off"
    by (simp add: spec Let_def)
  then show ?case using pr by (cases "rest = []") simp_all
qed

lemma predict_sequence_candidates:
  "predict_sequence fs self body False
     = (if sequence_candidates fs self (take (nat (sample_size (fcount self))) (files self)) body = []
        then Inl RuntimeError
        else Inr (sequence_candidates fs self (take (nat (sample_size (fcount self))) (files self)) body))"
proof -
  let ?c = "sequence_candidates fs self (take (nat (sample_size (fcount self))) (files self)) body"
  have p: "predict_loop fs self False (sample_size (fcount self)) body 0 0 [] = ?c"
    by (simp add: predict_loop_candidates total_dist_loop_sampled sequence_candidates_def)
  have "length ?c \<le> length [0..<length body]"
    unfolding sequence_candidates_def by (rule length_filter_le)
  then have l: "\<not> length ?c > length body" by simp
  show ?thesis
    unfolding predict_sequence_unfold sample_size_eq[symmetric] Let_def p using l
    by (cases ?c) simp_all
qed

text \<open>
  C2. A body component is predicted as a sequence exactly when its accumulated Levenshtein
  distance against the sampled files is positive and it consists of digits. The inference
  of the pattern fails, with \<open>RuntimeError\<close>, when there is no such component and, in strict
  mode, when there is more than one; in every other case it returns a pattern, so without
  strict mode several candidates are tolerated.
\<close>

theorem parse_filename_pattern_failures:
  "predict_sequence fs self (get_body (parts self)) False
     = (if sequence_candidates fs self (take (nat (sample_size (fcount self))) (files self))
             (get_body (parts self)) = []
        then Inl RuntimeError
        else Inr (sequence_candidates fs self (take (nat (sample_size (fcount self))) (files self))
                    (get_body (parts self))))
   \<and> (\<forall>k. k \<in> set (sequence_candidates fs self sampled body)
          \<longleftrightarrow> k < length body
              \<and> 0 < dissimilarity fs self sampled (length (concat (take k body))) (body ! k)
              \<and> str_isdigit (body ! k))
   \<and> (sequence_candidates fs self (take (nat (sample_size (fcount self))) (files self))
          (get_body (parts self)) = []
        \<or> (1 < length (sequence_candidates fs self (take (nat (sample_size (fcount self))) (files self))
                         (get_body (parts self))) \<and> strict)
       \<longrightarrow> parse_filename_pattern fs self strict = Inl RuntimeError)
   \<and> (\<not> (sequence_candidates fs self (take (nat (sample_size (fcount self))) (files self))
          (get_body (parts self)) = []
        \<or> (1 < length (sequence_candidates fs self (take (nat (sample_size (fcount self))) (files self))
                         (get_body (parts self))) \<and> strict))
       \<longrightarrow> (\<exists>pat n. parse_filename_pattern fs self strict = Inr (pat, n)))"
proof -
  let ?b = "get_body (parts self)"
  let ?c = "sequence_candidates fs self (take (nat (sample_size (fcount self))) (files self)) ?b"
  have p: "predict_sequence fs self ?b False = (if ?c = [] then Inl RuntimeError else Inr ?c)"
    by (rule predict_sequence_candidates)
  have m: "\<forall>k. k \<in> set (sequence_candidates fs self sampled body)
          \<longleftrightarrow> k < length body
              \<and> 0 < dissimilarity fs self sampled (length (concat (take k body))) (body ! k)
              \<and> str_isdigit (body ! k)"
    by (auto simp: sequence_candidates_def)
  have dig: "\<And>i. i \<in> set ?c \<Longrightarrow> str_isdigit (?b ! i)"
    by (simp add: sequence_candidates_def)
  have f: "?c = [] \<or> (1 < length ?c \<and> strict) \<longrightarrow> parse_filename_pattern fs self strict = Inl RuntimeError"
  proof
    assume h: "?c = [] \<or> (1 < length ?c \<and> strict)"
    show "parse_filename_pattern fs self strict = Inl RuntimeError"
    proof (cases "?c = []")
      case True
      then show ?thesis by (simp add: parse_filename_pattern_def p Let_def)
    next
      case False
      then have s: "1 < length ?c" "strict" using h by auto
      obtain pr where "parse_loop ?b ?c (root self) None 0 = Inr (pr, Some (?b ! last ?c))"
        using parse_loop_digits[of ?c ?b "root self" None 0] dig False by auto
      then show ?thesis using False s by (simp add: parse_filename_pattern_def p Let_def)
    qed
  qed
  have g: "\<not> (?c = [] \<or> (1 < length ?c \<and> strict))
      \<longrightarrow> (\<exists>pat n. parse_filename_pattern fs self strict = Inr (pat, n))"
  proof
    assume h: "\<not> (?c = [] \<or> (1 < length ?c \<and> strict))"
    then have ne: "?c \<noteq> []" and ns: "\<not> (1 < length ?c \<and> strict)" by auto
    obtain pr where pl: "parse_loop ?b ?c (root self) None 0 = Inr (pr, Some (?b ! last ?c))"
      using parse_loop_digits[of ?c ?b "root self" None 0] dig ne by auto
    have "str_isdigit (?b ! last ?c)" using dig[of "last ?c"] ne by simp
    then have "py_int (?b ! last ?c) = Some (int (nat_of_digits (?b ! last ?c)))"
      by (rule py_int_digits)
    then show "\<exists>pat n. parse_filename_pattern fs self strict = Inr (pat, n)"
      using ne ns pl by (simp add: parse_filename_pattern_def p Let_def)
  qed
  show ?thesis using p m f g by blast
qed

theorem parse_filename_pattern_failures_witness:
  "sequence_candidates two_dir two_seq (take (nat (sample_size (fcount two_seq))) (files two_seq))
      (get_body (parts two_seq)) = [1, 3]
   \<and> predict_sequence two_dir two_seq (get_body (parts two_seq)) False = Inr [1, 3]
   \<and> parse_filename_pattern two_dir two_seq True = Inl RuntimeError
   \<and> (\<exists>pat n. parse_filename_pattern two_dir two_seq False = Inr (pat, n))"
proof -
  let ?c = "sequence_candidates two_dir two_seq
      (take (nat (sample_size (fcount two_seq))) (files two_seq)) (get_body (parts two_seq))"
  have c: "?c = [1, 3]" by code_simp
  have t: "?c = [] \<or> (1 < length ?c \<and> True)" by (simp add: c)
  have f: "\<not> (?c = [] \<or> (1 < length ?c \<and> False))" by (simp add: c)
  have 1: "predict_sequence two_dir two_seq (get_body (parts two_seq)) False = Inr [1, 3]"
    using parse_filename_pattern_failures[of two_dir two_seq "[]" "[]" True, THEN conjunct1]
    by (simp add: c)
  have 2: "parse_filename_pattern two_dir two_seq True = Inl RuntimeError"
    using parse_filename_pattern_failures[of two_dir two_seq "[]" "[]" True,
        THEN conjunct2, THEN conjunct2, THEN conjunct1] t by blast
  have 3: "\<exists>pat n. parse_filename_pattern two_dir two_seq False = Inr (pat, n)"
    using parse_filename_pattern_failures[of two_dir two_seq "[]" "[]" False,
        THEN conjunct2, THEN conjunct2, THEN conjunct2] f by blast
  show ?thesis using c 1 2 3 by blast
qed

section \<open>The regular expression of a canonical pattern\<close>

lemma dfs_of_width_shape:
  "\<exists>ds. dfs_of_width W = CHR ''%'' # ds @ ''d'' \<and> list_all isdigit_c ds"
proof (cases "W = 0")
  case True
  then show ?thesis by (intro exI[of _ "[]"]) (simp add: dfs_of_width_def)
next
  case False
  then show ?thesis
    by (intro exI[of _ "CHR ''0'' # str_nat W"]) (simp add: dfs_of_width_def isdigit_zero str_nat_digits)
qed

lemma has_dfs_prefix: "has_digit_format_specifier r \<Longrightarrow> has_digit_format_specifier (pre @ r)"
  by (induction pre) simp_all

lemma has_dfs_canonical: "has_digit_format_specifier (canonical pre W post)"
proof -
  obtain ds where ds: "dfs_of_width W = CHR ''%'' # ds @ ''d''" "list_all isdigit_c ds"
    using dfs_of_width_shape by blast
  have "dfs_here (ds @ CHR ''d'' # post)" by (rule dfs_here_digits_d[OF ds(2)])
  then have "has_digit_format_specifier (dfs_of_width W @ post)" by (simp add: ds(1))
  then show ?thesis unfolding canonical_def by (rule has_dfs_prefix)
qed

lemma findall_no_percent: "CHR ''%'' \<notin> set s \<Longrightarrow> findall_dfs 0 s = []"
  by (induction s) auto

lemma findall_prefix: "CHR ''%'' \<notin> set pre \<Longrightarrow> findall_dfs 0 (pre @ r) = findall_dfs 0 r"
  by (induction pre) auto

lemma findall_skip: "findall_dfs (length xs) (xs @ r) = findall_dfs 0 r"
  by (induction xs) simp_all

lemma findall_canonical:
  assumes "CHR ''%'' \<notin> set pre" "CHR ''%'' \<notin> set post"
  shows "findall_dfs 0 (canonical pre W post) = [dfs_of_width W]"
proof -
  obtain ds where ds: "dfs_of_width W = CHR ''%'' # ds @ ''d''" "list_all isdigit_c ds"
    using dfs_of_width_shape by blast
  have h: "dfs_here (ds @ CHR ''d'' # post)" by (rule dfs_here_digits_d[OF ds(2)])
  have t: "takeWhile isdigit_c (ds @ CHR ''d'' # post) = ds"
    by (rule takeWhile_digits_then[OF ds(2) not_isdigit_d])
  have "findall_dfs (length (ds @ ''d'')) ((ds @ ''d'') @ post) = findall_dfs 0 post"
    by (rule findall_skip)
  then have s: "findall_dfs (Suc (length ds)) (ds @ CHR ''d'' # post) = []"
    by (simp add: findall_no_percent[OF assms(2)])
  have "findall_dfs 0 (dfs_of_width W @ post) = [dfs_of_width W]"
    using h t s by (simp add: ds(1))
  then show ?thesis by (simp add: canonical_def findall_prefix[OF assms(1)])
qed

lemma replace_no_percent:
  "CHR ''%'' \<notin> set s \<Longrightarrow> replace_from 0 s (CHR ''%'' # old) new = s"
  by (induction s) auto

lemma replace_prefix:
  "CHR ''%'' \<notin> set pre \<Longrightarrow>
   replace_from 0 (pre @ r) (CHR ''%'' # old) new = pre @ replace_from 0 r (CHR ''%'' # old) new"
  by (induction pre) auto

lemma replace_skip: "replace_from (length xs) (xs @ r) old new = replace_from 0 r old new"
  by (induction xs) simp_all

lemma replace_canonical:
  assumes "CHR ''%'' \<notin> set pre" "CHR ''%'' \<notin> set post"
  shows "str_replace (canonical pre W post) (dfs_of_width W) new = pre @ new @ post"
proof -
  obtain ds where ds: "dfs_of_width W = CHR ''%'' # ds @ ''d''" "list_all isdigit_c ds"
    using dfs_of_width_shape by blast
  have "replace_from (length (ds @ ''d'')) ((ds @ ''d'') @ post) (CHR ''%'' # ds @ ''d'') new
      = replace_from 0 post (CHR ''%'' # ds @ ''d'') new"
    by (rule replace_skip)
  then have "replace_from 0 ((CHR ''%'' # ds @ ''d'') @ post) (CHR ''%'' # ds @ ''d'') new = new @ post"
    by (simp add: replace_no_percent[OF assms(2)])
  then show ?thesis
    by (simp add: str_replace_def canonical_def ds(1) replace_prefix[OF assms(1)])
qed

lemma str_find_no_percent: "CHR ''%'' \<notin> set s \<Longrightarrow> str_find s ''%%'' = - 1"
  by (induction s) auto

lemma re_of_width_no_percent: "CHR ''%'' \<notin> set (re_of_width W)"
proof -
  have "CHR ''%'' \<notin> set (str_nat W)"
    using str_nat_digits[of W] isdigit_not_sign by (auto simp: list_all_iff)
  then show ?thesis by (simp add: re_of_width_def)
qed

lemma to_re_pattern_dfs_of_width: "to_re_pattern (dfs_of_width W) True = Inr (re_of_width W)"
proof (cases "W = 0")
  case True
  then show ?thesis by (simp add: dfs_of_width_def re_of_width_def to_re_pattern_unpadded)
next
  case False
  then show ?thesis using to_re_pattern_padded[of W True]
    by (simp add: dfs_of_width_def re_of_width_def)
qed

lemma get_regex_filename_canonical:
  assumes "dfs_filename self = canonical pre W post"
    and "CHR ''%'' \<notin> set pre" and "CHR ''%'' \<notin> set post" and "0 \<le> start_num self"
  shows "get_regex_filename self = Inr (canonical_regex pre W post)"
proof -
  have e: "extract_digit_format_specifiers (canonical pre W post)
      = OneDfs (str_find (canonical pre W post) (dfs_of_width W)) (dfs_of_width W)"
    by (simp add: extract_digit_format_specifiers_def has_dfs_canonical
        findall_canonical[OF assms(2,3)] Let_def)
  have r: "str_replace (canonical pre W post) (dfs_of_width W) (''('' @ re_of_width W @ '')'')
      = pre @ (''('' @ re_of_width W @ '')'') @ post"
    by (rule replace_canonical[OF assms(2,3)])
  have "CHR ''%'' \<notin> set (canonical_regex pre W post)"
    using assms(2,3) re_of_width_no_percent[of W] by (simp add: canonical_regex_def)
  then have c: "\<not> str_contains (canonical_regex pre W post) ''%%''"
    by (simp add: str_contains_def str_find_no_percent)
  have cr: "''^'' @ (pre @ (''('' @ re_of_width W @ '')'') @ post) @ ''$'' = canonical_regex pre W post"
    by (simp add: canonical_regex_def)
  show ?thesis
    unfolding get_regex_filename_def assms(1) e
    using assms(4) c
    by (simp only: dfs_result.case to_re_pattern_dfs_of_width sum.case Let_def r cr) simp
qed

section \<open>Sampling in \<open>_predict_sequence\<close>\<close>














section \<open>The pattern of a constructed multi-file descriptor\<close>

lemma splitext_concat: "os_path_splitext f = (r, e) \<Longrightarrow> r @ e = f"
  by (auto simp: os_path_splitext_def Let_def split: if_splits)

lemma py_take_prefix: "py_take (int (length a)) (a @ b) = a"
  by (simp add: py_take_def)

lemma py_drop_prefix: "py_drop (int (length a) + int (length b)) (a @ b @ c) = c"
proof -
  have "nat (int (length a) + int (length b)) = length a + length b" by simp
  then show ?thesis by (simp add: py_drop_def)
qed

lemma parse_filename_pattern_canonical:
  assumes pf: "parse_filename_pattern fs self strict = Inr (pat, n)"
    and strict: "strict"
    and body: "concat (get_body (parts self)) = root self"
  shows "\<exists>pre ds post. root self = pre @ ds @ post \<and> str_isdigit ds
           \<and> pat = canonical pre (if 1 < length ds then length ds else 0) (post @ ext self)"
proof -
  let ?body = "get_body (parts self)"
  let ?c = "sequence_candidates fs self (take (nat (sample_size (fcount self))) (files self)) ?body"
  have ne: "?c \<noteq> []"
    using pf by (auto simp: parse_filename_pattern_def Let_def predict_sequence_candidates)
  then have ps: "predict_sequence fs self ?body False = Inr ?c"
    by (simp add: predict_sequence_candidates)
  have dig: "\<And>i. i \<in> set ?c \<Longrightarrow> str_isdigit (?body ! i)"
    by (simp add: sequence_candidates_def)
  obtain pr where pr: "parse_loop ?body ?c (root self) None 0 = Inr (pr, Some (?body ! last ?c))"
    using parse_loop_digits[of ?c ?body "root self" None 0] dig ne by auto
  have len: "\<not> 1 < length ?c"
    using pf strict by (auto simp: parse_filename_pattern_def Let_def ps pr)
  then obtain i where c: "?c = [i]" using ne by (cases ?c) auto
  have "i \<in> set ?c" by (simp add: c)
  then have i: "i < length ?body" "str_isdigit (?body ! i)"
    by (simp_all add: sequence_candidates_def)
  let ?pre = "concat (take i ?body)"
  let ?ds = "?body ! i"
  let ?post = "concat (drop (Suc i) ?body)"
  let ?spec = "if 1 < length ?ds then ''%0'' @ str_nat (length ?ds) @ ''d'' else ''%d''"
  have rt: "root self = ?pre @ ?ds @ ?post"
    using id_take_nth_drop[OF i(1)] body by (metis concat.simps(2) concat_append)
  have pl: "parse_loop ?body [i] (?pre @ ?ds @ ?post) None 0 = Inr (?pre @ ?spec @ ?post, Some ?ds)"
    using py_take_prefix[of ?pre "?ds @ ?post"] py_drop_prefix[of ?pre ?ds ?post]
    by (simp add: parse_digit_format_specifier_digits[OF i(2)] Let_def)
  have sp: "?spec = dfs_of_width (if 1 < length ?ds then length ?ds else 0)"
    by (auto simp: dfs_of_width_def)
  obtain m where m: "py_int ?ds = Some m" using py_int_digits[OF i(2)] by blast
  have pl': "parse_loop ?body [i] (root self) None 0 = Inr (?pre @ ?spec @ ?post, Some ?ds)"
    using pl rt by simp
  have "parse_filename_pattern fs self strict = Inr ((?pre @ ?spec @ ?post) @ ext self, m)"
    unfolding parse_filename_pattern_def Let_def ps c
    by (simp add: m pl' del: parse_loop.simps)
  then have "pat = ?pre @ ?spec @ ?post @ ext self" using pf by simp
  then have "pat = canonical ?pre (if 1 < length ?ds then length ?ds else 0) (?post @ ext self)"
    unfolding canonical_def sp by simp
  then show ?thesis using rt i(2) by blast
qed

lemma root_body:
  assumes "split_at_digit rt False = Inr sr"
  shows "concat (get_body sr) = rt"
proof -
  obtain c cs where rt: "rt = c # cs" using assms by (cases rt) (auto simp: split_at_digit_def)
  have "get_body sr = split_loop [[c]] 0 (isdigit_c c) cs"
    using assms get_body_split_at_digit unfolding rt by blast
  then show ?thesis using split_loop_concat[of 0 "[[c]]" "isdigit_c c" cs] by (simp add: rt)
qed

text \<open>What a successful construction with a start number tells about the descriptor.\<close>

lemma ImageSequence_multi:
  assumes "ImageSequence fs p supp_formats = Inr self" and "0 \<le> start_num self"
  shows "is_file fs p supp_formats
    \<and> os_path_split p = (basedir self, filename self)
    \<and> CHR ''%'' \<notin> set (filename self)
    \<and> os_path_splitext (filename self) = (root self, ext self)
    \<and> split_at_digit (root self) False = Inr (parts self)
    \<and> 2 \<le> length (fetch_dir fs (basedir self) (Some [upper (strip_dots (ext self))]) True)
    \<and> (\<exists>self0 n. parse_filename_pattern fs self0 True = Inr (dfs_filename self, n)
          \<and> root self0 = root self \<and> parts self0 = parts self \<and> ext self0 = ext self)"
proof -
  have f: "is_file fs p supp_formats"
    using assms(1) by (auto simp: ImageSequence_def split: if_splits)
  obtain bd fname where sp: "os_path_split p = (bd, fname)" by (cases "os_path_split p")
  have pc: "CHR ''%'' \<notin> set fname"
    using assms(1) by (auto simp: ImageSequence_def f sp split: if_splits)
  obtain rt ex where se: "os_path_splitext fname = (rt, ex)" by (cases "os_path_splitext fname")
  obtain sr where sr: "split_at_digit rt False = Inr sr"
    using assms(1) by (cases "split_at_digit rt False") (auto simp: ImageSequence_def f sp pc se)
  let ?fl = "fetch_dir fs bd (Some [upper (strip_dots ex)]) True"
  let ?self = "\<lparr> path = p, basedir = bd, filename = fname, root = rt, ext = ex,
                  parts = sr, files = ?fl, fcount = length ?fl, messages = [],
                  dfs_filename = [], start_num = 0 \<rparr>"
  have unf: "ImageSequence fs p supp_formats =
     (if length ?fl < 2
      then Inr (?self\<lparr> dfs_filename := fname, start_num := - 1,
                       messages := messages ?self @ [single_image_message fname] \<rparr>)
      else (case parse_filename_pattern fs ?self True of
              Inl e \<Rightarrow> Inl e
            | Inr (pat, n) \<Rightarrow>
                (let self1 = ?self\<lparr> dfs_filename := pat, start_num := n \<rparr>
                 in case get_start_number fs self1 of
                      Inl e \<Rightarrow> Inl e
                    | Inr st \<Rightarrow> Inr (self1\<lparr> start_num := st \<rparr>))))"
    by (simp add: ImageSequence_def f sp pc se sr Let_def)
  have l2: "\<not> length ?fl < 2"
  proof
    assume "length ?fl < 2"
    then have "start_num self = - 1" using assms(1) unfolding unf by auto
    then show False using assms(2) by simp
  qed
  obtain pat n where pn: "parse_filename_pattern fs ?self True = Inr (pat, n)"
    using assms(1) l2 unfolding unf by (cases "parse_filename_pattern fs ?self True") auto
  obtain st where st: "get_start_number fs (?self\<lparr> dfs_filename := pat, start_num := n \<rparr>) = Inr st"
    using assms(1) l2 unfolding unf pn
    by (cases "get_start_number fs (?self\<lparr> dfs_filename := pat, start_num := n \<rparr>)")
       (auto simp: Let_def)
  have self: "self = ?self\<lparr> dfs_filename := pat, start_num := st \<rparr>"
    using assms(1) l2 st unfolding unf pn by (simp add: Let_def)
  have a: "parse_filename_pattern fs ?self True = Inr (dfs_filename self, n)
          \<and> root ?self = root self \<and> parts ?self = parts self \<and> ext ?self = ext self"
    using pn by (simp add: self)
  show ?thesis
    apply (intro conjI)
          apply (rule f)
         apply (simp add: self sp)
        apply (simp add: self pc)
       apply (simp add: self se)
      apply (simp add: self sr)
    using l2 apply (simp add: self)
    using a apply blast
    done
qed

lemma ImageSequence_canonical:
  assumes "ImageSequence fs p supp_formats = Inr self" and "0 \<le> start_num self"
  shows "\<exists>pre ds post. filename self = pre @ ds @ post \<and> str_isdigit ds
           \<and> dfs_filename self = canonical pre (if 1 < length ds then length ds else 0) post"
proof -
  note m = ImageSequence_multi[OF assms]
  from m obtain self0 n where p: "parse_filename_pattern fs self0 True = Inr (dfs_filename self, n)"
      "root self0 = root self" "parts self0 = parts self" "ext self0 = ext self" by blast
  have b: "concat (get_body (parts self0)) = root self0"
    using m root_body[of "root self" "parts self"] by (simp add: p)
  obtain pre ds post where q: "root self0 = pre @ ds @ post" "str_isdigit ds"
      "dfs_filename self = canonical pre (if 1 < length ds then length ds else 0) (post @ ext self0)"
    using parse_filename_pattern_canonical[OF p(1) _ b] by auto
  have "root self @ ext self = filename self" using m splitext_concat by blast
  then have "filename self = pre @ ds @ (post @ ext self0)" using q(1) by (simp add: p)
  then show ?thesis using q(2,3) by blast
qed

end
